theory Spec2Isabelle
  imports Main "HOL-Library.Word" "HOL-Library.Sublist"
begin

section \<open>Package build: the status-event trace (pkg/cmd/build/logger.go)\<close>

subsection \<open>Events received from the build backend\<close>

text \<open>
  The three kinds of sub-event of a \<^verbatim>\<open>client.SolveStatus\<close>, with the fields the
  trace reads. An identifier is the string \<^verbatim>\<open>Digest.Encoded()\<close> of the event; a
  \<^verbatim>\<open>*time.Time\<close> is an optional time stamp (\<open>None\<close> is \<^verbatim>\<open>nil\<close>); \<^verbatim>\<open>int64\<close>
  is a 64-bit word read as a signed number.
\<close>

type_synonym int64 = "64 word"

record Vertex =
  Digest :: string
  Name :: string
  Cached :: bool
  Error :: string
  Completed :: "nat option"

record VertexStatus =
  st_Vertex :: string
  st_Completed :: "nat option"
  st_Current :: int64
  st_Total :: int64

record VertexLog =
  lg_Vertex :: string
  lg_Data :: string

record SolveStatus =
  Vertexes :: "Vertex list"
  Statuses :: "VertexStatus list"
  Logs :: "VertexLog list"

subsection \<open>The trace\<close>

text \<open>
  \<^verbatim>\<open>type vertexInfo struct\<close>: one step of the registry. It has a single
  \<open>completed\<close> field, written both by vertex descriptors and by status updates.
\<close>

record vertexInfo =
  name :: string
  logs :: "string list"
  currentTransferedContext :: int64
  totalTransferedContext :: int64
  completed :: bool
  cached :: bool

text \<open>
  The output modes. The three constants \<^verbatim>\<open>DeployOutputModeOnBuild\<close>,
  \<^verbatim>\<open>DestroyOutputModeOnBuild\<close> and \<^verbatim>\<open>TestOutputModeOnBuild\<close> are declared
  outside the two source files; they label the cases of one \<^verbatim>\<open>switch\<close>, so they are
  pairwise different strings. \<open>OtherMode s\<close> is any other string \<open>s\<close>.
\<close>

datatype mode =
  DeployOutputModeOnBuild
| DestroyOutputModeOnBuild
| TestOutputModeOnBuild
| OtherMode string

text \<open>\<^verbatim>\<open>buildkit.CommandErr{Stage, Err, Output}\<close>; \<open>Err\<close> is the text given to
  \<^verbatim>\<open>fmt.Errorf("%s", text.Message)\<close>.\<close>

record CommandErr =
  ce_Stage :: string
  ce_Err :: string
  ce_Output :: mode

text \<open>
  \<^verbatim>\<open>type trace struct\<close>. The Go maps hold pointers to distinct \<open>vertexInfo\<close> values
  (one fresh value per key), so a map from identifiers to values models them; a write
  through the pointer is a write to the map entry.
\<close>

record trace =
  err :: "CommandErr option"
  ongoing :: "string \<rightharpoonup> vertexInfo"
  stages :: "string \<rightharpoonup> bool"
  showCtxAdvice :: bool

definition newTrace :: trace where
  "newTrace = \<lparr>err = None, ongoing = Map.empty, stages = Map.empty, showCtxAdvice = True\<rparr>"

subsection \<open>update\<close>

text \<open>\<^verbatim>\<open>strings.Split(s, "\n")\<close>: the pieces between line feeds; one piece more than
  there are line feeds, so the empty string gives one empty piece.\<close>

fun Split_nl :: "string \<Rightarrow> string list" where
  "Split_nl [] = [[]]"
| "Split_nl (c # cs) =
     (if c = CHR 0x0A then [] # Split_nl cs
      else (case Split_nl cs of
              [] \<Rightarrow> [[c]]
            | p # ps \<Rightarrow> (c # p) # ps))"

text \<open>The value \<^verbatim>\<open>&vertexInfo{name: ..., cached: ...}\<close> registered for a new identifier.\<close>

definition new_vertexInfo :: "Vertex \<Rightarrow> vertexInfo" where
  "new_vertexInfo rv =
     \<lparr>name = Name rv, logs = [], currentTransferedContext = 0,
      totalTransferedContext = 0, completed = False, cached = Cached rv\<rparr>"

text \<open>\<^verbatim>\<open>fmt.Errorf("error on stage %s: %s", rawVertex.Name, rawVertex.Error)\<close>,
  an error value represented by its text.\<close>

definition stage_error :: "Vertex \<Rightarrow> string" where
  "stage_error rv = ''error on stage '' @ Name rv @ '': '' @ Error rv"

text \<open>
  The first loop of \<open>update\<close>, over \<^verbatim>\<open>ss.Vertexes\<close>. The result is the returned
  error (\<open>None\<close> when the loop ends without one) and the registry as the loop left it:
  the registry is mutated in place, also when an error is returned.
\<close>

fun update_vertexes ::
  "Vertex list \<Rightarrow> (string \<rightharpoonup> vertexInfo) \<Rightarrow> string option \<times> (string \<rightharpoonup> vertexInfo)" where
  "update_vertexes [] og = (None, og)"
| "update_vertexes (rv # rest) og =
     (let v = (case og (Digest rv) of Some v \<Rightarrow> v | None \<Rightarrow> new_vertexInfo rv);
          og1 = (case og (Digest rv) of Some _ \<Rightarrow> og | None \<Rightarrow> og(Digest rv \<mapsto> v))
      in if Error rv \<noteq> [] then (Some (stage_error rv), og1)
         else
           let v1 = (if Cached rv then v\<lparr>cached := True\<rparr> else v);
               v2 = (if Completed rv \<noteq> None then v1\<lparr>completed := True\<rparr> else v1)
           in update_vertexes rest (og1(Digest rv \<mapsto> v2)))"

text \<open>The second loop, over \<^verbatim>\<open>ss.Statuses\<close>; an unknown identifier is skipped.\<close>

fun update_statuses ::
  "VertexStatus list \<Rightarrow> (string \<rightharpoonup> vertexInfo) \<Rightarrow> (string \<rightharpoonup> vertexInfo)" where
  "update_statuses [] og = og"
| "update_statuses (s # rest) og =
     (case og (st_Vertex s) of
        None \<Rightarrow> update_statuses rest og
      | Some v \<Rightarrow>
          update_statuses rest
            (og(st_Vertex s \<mapsto>
               v\<lparr>completed := (st_Completed s \<noteq> None),
                 currentTransferedContext := st_Current s,
                 totalTransferedContext := st_Total s\<rparr>)))"

text \<open>The third loop, over \<^verbatim>\<open>ss.Logs\<close>.\<close>

fun update_logs ::
  "VertexLog list \<Rightarrow> (string \<rightharpoonup> vertexInfo) \<Rightarrow> (string \<rightharpoonup> vertexInfo)" where
  "update_logs [] og = og"
| "update_logs (l # rest) og =
     (case og (lg_Vertex l) of
        None \<Rightarrow> update_logs rest og
      | Some v \<Rightarrow>
          update_logs rest (og(lg_Vertex l \<mapsto> v\<lparr>logs := logs v @ Split_nl (lg_Data l)\<rparr>)))"

text \<open>\<^verbatim>\<open>func (t *trace) update(ss *client.SolveStatus) error\<close>: the returned error and
  the trace after the call.\<close>

definition update :: "SolveStatus \<Rightarrow> trace \<Rightarrow> string option \<times> trace" where
  "update ss t =
     (case update_vertexes (Vertexes ss) (ongoing t) of
        (Some e, og) \<Rightarrow> (Some e, t\<lparr>ongoing := og\<rparr>)
      | (None, og) \<Rightarrow>
          (None, t\<lparr>ongoing := update_logs (Logs ss) (update_statuses (Statuses ss) og)\<rparr>))"

subsection \<open>The output sink\<close>

text \<open>
  The calls made on the logging package \<^verbatim>\<open>oktetoLog\<close> (which is outside the source
  files), recorded in the order they are made. A formatted call is recorded with its
  final text.
\<close>

datatype event =
  Spinner string
| StartSpinner
| StopSpinner
| Information string
| Success string
| Warning string
| Info string
| Infof string
| Debugf string
| Println string
| SetStage string
| Fail string

subsection \<open>display\<close>

text \<open>\<^verbatim>\<open>oktetoLog.JSONLogFormat\<close>, with the three fields \<open>display\<close> reads.\<close>

record JSONLogFormat =
  Level :: string
  Stage :: string
  Message :: string

text \<open>\<^verbatim>\<open>strings.Contains\<close> and \<^verbatim>\<open>strings.HasPrefix\<close>.\<close>

fun Contains :: "string \<Rightarrow> string \<Rightarrow> bool" where
  "Contains [] sub = (sub = [])"
| "Contains (c # cs) sub = (prefix sub (c # cs) \<or> Contains cs sub)"

definition HasPrefix :: "string \<Rightarrow> string \<Rightarrow> bool" where
  "HasPrefix s p = prefix p s"

definition isTransferringContext :: "string \<Rightarrow> bool" where
  "isTransferringContext nm =
     (let isInternal = HasPrefix nm ''[internal]'';
          isLoadingCtx = Contains nm ''load build''
      in isInternal \<and> isLoadingCtx)"

definition hasCommandLogs :: "vertexInfo \<Rightarrow> bool" where
  "hasCommandLogs v = (length (logs v) \<noteq> 0)"

definition largeContextThreshold :: int where
  "largeContextThreshold = 50000000"

definition ctx_advice :: string where
  "ctx_advice =
     ''You can use '.oktetoignore' file to optimize the context used to deploy your development environment.''"

definition running_stage :: "string \<Rightarrow> string" where
  "running_stage stage = ''Running stage '' @ [CHR 0x27] @ stage @ [CHR 0x27]"

text \<open>
  The body of the loop over \<^verbatim>\<open>v.logs\<close>, for one line. \<open>unmarshal\<close> stands for
  \<^verbatim>\<open>json.Unmarshal\<close> into a fresh \<open>JSONLogFormat\<close>: \<open>Inl\<close> carries the text of the
  decoding error. \<^verbatim>\<open>oktetoLog.Fail\<close> is recorded as a call on the sink and the loop
  goes on, as the control flow of \<open>display\<close> is written.
\<close>

definition display_log ::
  "(string \<Rightarrow> string + JSONLogFormat) \<Rightarrow> mode \<Rightarrow> string \<Rightarrow> trace \<Rightarrow> trace \<times> event list" where
  "display_log unmarshal progress lg t =
     (if lg = [] then (t, [])
      else
        (case unmarshal lg of
           Inl e \<Rightarrow> (t, [Debugf (''could not parse '' @ lg @ '': '' @ e)])
         | Inr text \<Rightarrow>
             if Stage text = [] then
               (t, [Infof (''received log without stage: '' @ Message text)])
             else if Stage text = ''done'' then (t, [SetStage (Stage text)])
             else if Stage text = ''Load manifest'' then
               (t, SetStage (Stage text) #
                   (if Level text = ''error'' then [Fail (Message text)] else []))
             else
               let (t1, out1) =
                     (if stages t (Stage text) = None then
                        (t\<lparr>stages := (stages t)(Stage text \<mapsto> True)\<rparr>,
                         if progress \<noteq> TestOutputModeOnBuild
                         then [Information (running_stage (Stage text))] else [])
                      else (t, []));
                   (t2, out2) =
                     (if Level text = ''error'' then
                        (if Stage text \<noteq> [] then
                           t1\<lparr>err := Some \<lparr>ce_Stage = Stage text, ce_Err = Message text,
                                           ce_Output = progress\<rparr>\<rparr>
                         else t1, [])
                      else (t1, [Println (Message text)]))
               in (t2, SetStage (Stage text) # out1 @ out2)))"

fun display_logs ::
  "(string \<Rightarrow> string + JSONLogFormat) \<Rightarrow> mode \<Rightarrow> string list \<Rightarrow> trace \<Rightarrow> trace \<times> event list" where
  "display_logs unmarshal progress [] t = (t, [])"
| "display_logs unmarshal progress (lg # rest) t =
     (let (t1, out1) = display_log unmarshal progress lg t;
          (t2, out2) = display_logs unmarshal progress rest t1
      in (t2, out1 @ out2))"

definition progress_spinner :: "mode \<Rightarrow> event list" where
  "progress_spinner progress =
     (case progress of
        DeployOutputModeOnBuild \<Rightarrow> [Spinner ''Deploying your development environment...'']
      | DestroyOutputModeOnBuild \<Rightarrow> [Spinner ''Destroying your development environment...'']
      | TestOutputModeOnBuild \<Rightarrow> [Spinner ''Running tests...'']
      | OtherMode _ \<Rightarrow> [])"

text \<open>
  The body of the loop of \<open>display\<close> over the registry, for the step stored under
  the key \<open>k\<close>. \<open>fmt_bytes\<close> stands for the \<^verbatim>\<open>%.2f\<close> formatting of a
  \<^verbatim>\<open>units.Bytes\<close> value. The comparison with the threshold is one of signed 64-bit
  numbers.
\<close>

definition display_vertex ::
  "(string \<Rightarrow> string + JSONLogFormat) \<Rightarrow> (int64 \<Rightarrow> string) \<Rightarrow> mode \<Rightarrow> string \<Rightarrow> trace
     \<Rightarrow> trace \<times> event list" where
  "display_vertex unmarshal fmt_bytes progress k t =
     (case ongoing t k of
        None \<Rightarrow> (t, [])
      | Some v \<Rightarrow>
          let (t1, out1) =
                (if isTransferringContext (name v) then
                   (if currentTransferedContext v \<noteq> 0 then
                      let currentLoadedCtx = currentTransferedContext v;
                          (ta, outa) =
                            (if showCtxAdvice t \<and> largeContextThreshold < sint currentLoadedCtx
                             then (t\<lparr>showCtxAdvice := False\<rparr>, [Information ctx_advice])
                             else (t, []))
                      in (ta, outa @
                            [Spinner (''Synchronizing context: '' @ fmt_bytes currentLoadedCtx)])
                    else (t, []))
                 else (t, []));
              (t2, out2) =
                (if hasCommandLogs v then
                   let (tb, outb) = display_logs unmarshal progress (logs v) t1
                   in (tb\<lparr>ongoing := (ongoing tb)(k \<mapsto> v\<lparr>logs := []\<rparr>)\<rparr>,
                       progress_spinner progress @ outb @ [SetStage []])
                 else (t1, []))
          in (t2, out1 @ out2))"

text \<open>
  \<^verbatim>\<open>func (t *trace) display(progress string)\<close>. A Go \<^verbatim>\<open>range\<close> over a map visits
  the keys in an order the runtime chooses; the list \<open>ks\<close> is that order. The loop body
  adds and removes no key, so \<open>ks\<close> enumerates the keys of the registry.
\<close>

fun display ::
  "(string \<Rightarrow> string + JSONLogFormat) \<Rightarrow> (int64 \<Rightarrow> string) \<Rightarrow> mode \<Rightarrow> string list \<Rightarrow> trace
     \<Rightarrow> trace \<times> event list" where
  "display unmarshal fmt_bytes progress [] t = (t, [])"
| "display unmarshal fmt_bytes progress (k # ks) t =
     (let (t1, out1) = display_vertex unmarshal fmt_bytes progress k t;
          (t2, out2) = display unmarshal fmt_bytes progress ks t1
      in (t2, out1 @ out2))"

subsection \<open>removeCompletedSteps\<close>

text \<open>
  \<^verbatim>\<open>nameRegex = regexp.MustCompile(`--name\s+"([^"]+)"`)\<close>. \<open>nameRegex_at s\<close> matches
  the expression at the start of \<open>s\<close> and gives the text of its group: the literal
  \<^verbatim>\<open>--name\<close>, one or more white-space characters (\<^verbatim>\<open>\s\<close> is tab, line feed, form
  feed, carriage return or space), a double quote, one or more characters other than a
  double quote, a double quote. Each repetition is followed by a character outside its
  class, so the longest run is the only one that can match.
\<close>

definition is_space :: "char \<Rightarrow> bool" where
  "is_space c = (c = CHR 0x09 \<or> c = CHR 0x0A \<or> c = CHR 0x0C \<or> c = CHR 0x0D \<or> c = CHR 0x20)"

definition dquote :: char where
  "dquote = CHR 0x22"

definition nameRegex_at :: "string \<Rightarrow> string option" where
  "nameRegex_at s =
     (if prefix ''--name'' s then
        let r = drop 6 s;
            ws = takeWhile is_space r;
            r1 = dropWhile is_space r
        in if ws = [] then None
           else
             (case r1 of
                [] \<Rightarrow> None
              | q # r2 \<Rightarrow>
                  if q \<noteq> dquote then None
                  else
                    let val = takeWhile (\<lambda>c. c \<noteq> dquote) r2;
                        r3 = dropWhile (\<lambda>c. c \<noteq> dquote) r2
                    in if val = [] then None
                       else (case r3 of [] \<Rightarrow> None | _ # _ \<Rightarrow> Some val))
      else None)"

text \<open>\<^verbatim>\<open>nameRegex.FindStringSubmatch(s)\<close>: the leftmost match; \<open>Some n\<close> is the slice
  \<^verbatim>\<open>[whole, n]\<close> of length 2 and \<open>None\<close> the \<^verbatim>\<open>nil\<close> slice of no match.\<close>

fun FindStringSubmatch :: "string \<Rightarrow> string option" where
  "FindStringSubmatch [] = nameRegex_at []"
| "FindStringSubmatch (c # cs) =
     (case nameRegex_at (c # cs) of
        Some n \<Rightarrow> Some n
      | None \<Rightarrow> FindStringSubmatch cs)"

definition skip_notice :: "vertexInfo \<Rightarrow> event list" where
  "skip_notice v =
     (if Contains (name v) ''remote-run test'' \<and> cached v then
        (case FindStringSubmatch (name v) of
           Some n \<Rightarrow>
             [Information (''Skipping test container '' @ [CHR 0x27] @ n @ [CHR 0x27] @ '', CACHED'')]
         | None \<Rightarrow> [Information ''Skipping test container, CACHED''])
      else [])"

text \<open>The loop body of \<open>removeCompletedSteps\<close> for the key \<open>k\<close>.\<close>

definition remove_step :: "string \<Rightarrow> trace \<Rightarrow> trace \<times> event list" where
  "remove_step k t =
     (case ongoing t k of
        None \<Rightarrow> (t, [])
      | Some v \<Rightarrow>
          if completed v then (t\<lparr>ongoing := (ongoing t)(k := None)\<rparr>, skip_notice v)
          else (t, []))"

text \<open>\<^verbatim>\<open>func (t *trace) removeCompletedSteps()\<close>; \<open>ks\<close> is the order in which the
  \<^verbatim>\<open>range\<close> visits the keys. The body deletes the visited key only.\<close>

fun removeCompletedSteps :: "string list \<Rightarrow> trace \<Rightarrow> trace \<times> event list" where
  "removeCompletedSteps [] t = (t, [])"
| "removeCompletedSteps (k # ks) t =
     (let (t1, out1) = remove_step k t;
          (t2, out2) = removeCompletedSteps ks t1
      in (t2, out1 @ out2))"

subsection \<open>deployDisplayer\<close>

text \<open>
  What one \<^verbatim>\<open>select\<close> of the loop of \<open>deployDisplayer\<close> can receive: the context is
  done (with the value of \<^verbatim>\<open>ctx.Err()\<close>), the ticker fires, a status arrives on the
  channel, or the channel is closed. A received status comes with the two orders in
  which \<open>display\<close> and \<open>removeCompletedSteps\<close> will visit the registry.
\<close>

datatype selected =
  CtxDone string
| TimeoutTick
| Received SolveStatus "string list" "string list"
| ChannelClosed

datatype loop_error = CtxErr string | TraceErr CommandErr

text \<open>The outcome of the loop on a finite sequence of receptions: it has returned
  (\<open>None\<close> is \<^verbatim>\<open>nil\<close>), or it waits in \<^verbatim>\<open>select\<close> for the next one.\<close>

datatype outcome = Returned "loop_error option" | Waiting

fun displayer_loop ::
  "(string \<Rightarrow> string + JSONLogFormat) \<Rightarrow> (int64 \<Rightarrow> string) \<Rightarrow> mode \<Rightarrow> selected list \<Rightarrow> trace
     \<Rightarrow> outcome \<times> trace \<times> event list" where
  "displayer_loop unmarshal fmt_bytes outputMode [] t = (Waiting, t, [])"
| "displayer_loop unmarshal fmt_bytes outputMode (CtxDone e # rest) t =
     (Returned (Some (CtxErr e)), t, [StopSpinner])"
| "displayer_loop unmarshal fmt_bytes outputMode (TimeoutTick # rest) t =
     displayer_loop unmarshal fmt_bytes outputMode rest t"
| "displayer_loop unmarshal fmt_bytes outputMode (Received ss dks rks # rest) t =
     (case update ss t of
        (Some e, t1) \<Rightarrow>
          (let (r, t2, out2) = displayer_loop unmarshal fmt_bytes outputMode rest t1
           in (r, t2, Info e # out2))
      | (None, t1) \<Rightarrow>
          (let (t2, out2) = display unmarshal fmt_bytes outputMode dks t1;
               (t3, out3) = removeCompletedSteps rks t2;
               (r, t4, out4) = displayer_loop unmarshal fmt_bytes outputMode rest t3
           in (r, t4, out2 @ out3 @ out4)))"
| "displayer_loop unmarshal fmt_bytes outputMode (ChannelClosed # rest) t =
     (Returned (case err t of Some e \<Rightarrow> Some (TraceErr e) | None \<Rightarrow> None), t, [StopSpinner])"

text \<open>The \<^verbatim>\<open>switch\<close> on \<^verbatim>\<open>o.OutputMode\<close>.\<close>

definition select_outputMode :: "mode \<Rightarrow> mode" where
  "select_outputMode m =
     (case m of
        DeployOutputModeOnBuild \<Rightarrow> DeployOutputModeOnBuild
      | DestroyOutputModeOnBuild \<Rightarrow> DestroyOutputModeOnBuild
      | TestOutputModeOnBuild \<Rightarrow> TestOutputModeOnBuild
      | OtherMode _ \<Rightarrow> DeployOutputModeOnBuild)"

text \<open>\<^verbatim>\<open>func deployDisplayer(ctx, ch, o) error\<close>, on the receptions \<open>sels\<close>. The
  deferred \<^verbatim>\<open>StopSpinner\<close> runs when the function returns.\<close>

definition deployDisplayer ::
  "(string \<Rightarrow> string + JSONLogFormat) \<Rightarrow> (int64 \<Rightarrow> string) \<Rightarrow> mode \<Rightarrow> selected list
     \<Rightarrow> outcome \<times> trace \<times> event list" where
  "deployDisplayer unmarshal fmt_bytes o_OutputMode sels =
     (let (r, t, out) =
            displayer_loop unmarshal fmt_bytes (select_outputMode o_OutputMode) sels newTrace
      in (r, t,
          [Spinner ''Synchronizing context...'', StartSpinner] @ out @
          (case r of Returned _ \<Rightarrow> [StopSpinner] | Waiting \<Rightarrow> [])))"

section \<open>Package pipeline: destroying a pipeline (the second source file)\<close>

subsection \<open>Errors, options and responses\<close>

text \<open>
  An error value of this package is built by \<^verbatim>\<open>fmt.Errorf\<close> around another one
  (\<^verbatim>\<open>%w\<close>), or comes from a collaborator and is known by its text.
\<close>

datatype perror = Errorf string | Wrapf string perror

fun Error_text :: "perror \<Rightarrow> string" where
  "Error_text (Errorf s) = s"
| "Error_text (Wrapf p e) = p @ Error_text e"

record DestroyOptions =
  opt_Name :: string
  opt_Namespace :: string
  opt_Wait :: bool
  opt_DestroyVolumes :: bool
  opt_Timeout :: int

text \<open>\<^verbatim>\<open>types.GitDeployResponse\<close>: its \<open>Action\<close> pointer, as the name of the action
  (\<open>None\<close> is \<^verbatim>\<open>nil\<close>).\<close>

record GitDeployResponse =
  Action :: "string option"

definition quoted :: "string \<Rightarrow> string" where
  "quoted s = [CHR 0x27] @ s @ [CHR 0x27]"

subsection \<open>destroyPipeline\<close>

text \<open>
  The \<^verbatim>\<open>select\<close> of \<open>destroyPipeline\<close>: the interrupt arrives first (\<open>SelStop r\<close>,
  where \<open>r\<close> is what the variable \<^verbatim>\<open>resp\<close>, shared with the goroutine, holds when it
  is read), or the goroutine's result does (\<open>SelExit resp e\<close>, the values the remote
  \<^verbatim>\<open>Destroy\<close> returned).
\<close>

datatype destroy_select =
  SelStop "GitDeployResponse option"
| SelExit "GitDeployResponse option" "perror option"

definition destroyPipeline ::
  "string \<Rightarrow> destroy_select \<Rightarrow> (GitDeployResponse option \<times> perror option) \<times> event list" where
  "destroyPipeline nm sel =
     (let start = [Spinner (''Destroying repository '' @ quoted nm @ ''...''), StartSpinner]
      in case sel of
           SelStop r \<Rightarrow>
             ((r, None),
              start @ [Infof ''CTRL+C received, starting shutdown sequence'', StopSpinner]
                @ [StopSpinner])
         | SelExit resp None \<Rightarrow> ((resp, None), start @ [StopSpinner])
         | SelExit resp (Some e) \<Rightarrow>
             (let e' = Wrapf (''failed to destroy repository '' @ quoted nm @ '': '') e
              in ((None, Some e'),
                  start @ [Infof (''exit signal received due to error: '' @ Error_text e')]
                    @ [StopSpinner])))"

subsection \<open>waitUntilDestroyed\<close>

text \<open>
  The four threads of \<open>waitUntilDestroyed\<close> as a transition system. The state holds
  the counter of the \<^verbatim>\<open>sync.WaitGroup\<close>, whether the log-streaming goroutine and
  the goroutine that waits for the action have finished, the position of the goroutine
  that closes the channels (0: in \<^verbatim>\<open>wg.Wait()\<close>, 1: before \<^verbatim>\<open>close(stop)\<close>,
  2: before \<^verbatim>\<open>close(exit)\<close>, 3: finished), the contents of the two channels of
  capacity 1 and how often each was closed, whether the context was cancelled, what the
  function returned (\<open>None\<close>: it is still in its \<^verbatim>\<open>select\<close>), whether the process
  panicked, and the calls made on the sink.
\<close>

record wstate =
  wg :: int
  logs_done :: bool
  wait_done :: bool
  closer_pc :: nat
  stop_buf :: nat
  stop_closes :: nat
  exit_buf :: "perror option list"
  exit_closes :: nat
  cancelled :: bool
  returned :: "perror option option"
  panicked :: bool
  wout :: "event list"

text \<open>
  One step of one thread: an interrupt is delivered to \<^verbatim>\<open>stop\<close>; the log-streaming
  goroutine runs (\<^verbatim>\<open>streamPipelineLogs\<close> returns the given error, then the deferred
  \<^verbatim>\<open>wg.Done()\<close>); the waiting goroutine runs (\<^verbatim>\<open>waitToBeDestroyed\<close> returns the
  given error, which is sent on \<^verbatim>\<open>exit\<close>); the closing goroutine takes a step; the
  function runs its \<^verbatim>\<open>select\<close> (the flag chooses \<^verbatim>\<open>stop\<close> when both channels are
  ready).
\<close>

datatype wstep =
  Interrupt
| LogsReturn "perror option"
| WaitReturn "perror option"
| CloserStep
| MainSelect bool

text \<open>The state when the three goroutines have been started: \<^verbatim>\<open>wg.Add(1)\<close> ran
  twice.\<close>

definition winit :: "string \<Rightarrow> wstate" where
  "winit nm =
     \<lparr>wg = 2, logs_done = False, wait_done = False, closer_pc = 0, stop_buf = 0,
      stop_closes = 0, exit_buf = [], exit_closes = 0, cancelled = False, returned = None,
      panicked = False,
      wout = [Spinner (''Waiting for the repository '' @ quoted nm @ '' to be destroyed...''),
              StartSpinner]\<rparr>"

text \<open>
  \<open>ErrIntSig\<close> is the value \<^verbatim>\<open>oktetoErrors.ErrIntSig\<close>, declared outside the source
  files; \<open>action\<close> is the \<^verbatim>\<open>*types.Action\<close> argument, which both goroutines
  dereference (\<^verbatim>\<open>action.Name\<close>). A send on a closed channel, a second close of a
  channel and a negative counter panic. A thread that cannot move leaves the state as
  it is.
\<close>

definition wstep_fun :: "perror \<Rightarrow> string option \<Rightarrow> wstep \<Rightarrow> wstate \<Rightarrow> wstate" where
  "wstep_fun ErrIntSig action a s =
     (if panicked s then s
      else
        (case a of
           Interrupt \<Rightarrow>
             if stop_closes s > 0 then s\<lparr>panicked := True\<rparr>
             else if stop_buf s = 0 then s\<lparr>stop_buf := 1\<rparr>
             else s
         | LogsReturn e \<Rightarrow>
             if logs_done s then s
             else if action = None then s\<lparr>panicked := True\<rparr>
             else
               (let s1 = (case e of
                            None \<Rightarrow> s
                          | Some x \<Rightarrow>
                              s\<lparr>wout := wout s @
                                  [Warning (''there was an error streaming pipeline logs: ''
                                            @ Error_text x)]\<rparr>)
                in if wg s1 - 1 < 0 then s1\<lparr>panicked := True\<rparr>
                   else s1\<lparr>wg := wg s1 - 1, logs_done := True\<rparr>)
         | WaitReturn r \<Rightarrow>
             if wait_done s then s
             else if action = None then s\<lparr>panicked := True\<rparr>
             else if exit_closes s > 0 then s\<lparr>panicked := True\<rparr>
             else if length (exit_buf s) < 1
             then s\<lparr>exit_buf := exit_buf s @ [r], wait_done := True\<rparr>
             else s
         | CloserStep \<Rightarrow>
             if closer_pc s = 0 then (if wg s = 0 then s\<lparr>closer_pc := 1\<rparr> else s)
             else if closer_pc s = 1 then
               (if stop_closes s > 0 then s\<lparr>panicked := True\<rparr>
                else s\<lparr>stop_closes := stop_closes s + 1, closer_pc := 2\<rparr>)
             else if closer_pc s = 2 then
               (if exit_closes s > 0 then s\<lparr>panicked := True\<rparr>
                else s\<lparr>exit_closes := exit_closes s + 1, closer_pc := 3\<rparr>)
             else s
         | MainSelect prefer_stop \<Rightarrow>
             if returned s \<noteq> None then s
             else
               (let stop_ready = (stop_buf s > 0 \<or> stop_closes s > 0);
                    exit_ready = (exit_buf s \<noteq> [] \<or> exit_closes s > 0)
                in if stop_ready \<and> (prefer_stop \<or> \<not> exit_ready) then
                     s\<lparr>stop_buf := 0, cancelled := True, returned := Some (Some ErrIntSig),
                       wout := wout s @
                         [Infof ''CTRL+C received, starting shutdown sequence'', StopSpinner,
                          StopSpinner]\<rparr>
                   else if exit_ready then
                     (case (case exit_buf s of [] \<Rightarrow> None | x # _ \<Rightarrow> x) of
                        Some e \<Rightarrow>
                          s\<lparr>exit_buf := tl (exit_buf s), cancelled := True,
                            returned := Some (Some e),
                            wout := wout s @
                              [Infof (''exit signal received due to error: '' @ Error_text e),
                               StopSpinner]\<rparr>
                      | None \<Rightarrow>
                          s\<lparr>exit_buf := tl (exit_buf s), cancelled := True,
                            returned := Some None, wout := wout s @ [StopSpinner]\<rparr>)
                   else s)))"

text \<open>\<open>waitUntilDestroyed\<close> under a schedule, a finite sequence of steps of its
  threads.\<close>

fun wrun :: "perror \<Rightarrow> string option \<Rightarrow> wstep list \<Rightarrow> wstate \<Rightarrow> wstate" where
  "wrun ErrIntSig action [] s = s"
| "wrun ErrIntSig action (a # as) s = wrun ErrIntSig action as (wstep_fun ErrIntSig action a s)"

definition waitUntilDestroyed :: "perror \<Rightarrow> string \<Rightarrow> string option \<Rightarrow> wstep list \<Rightarrow> wstate" where
  "waitUntilDestroyed ErrIntSig nm action sched = wrun ErrIntSig action sched (winit nm)"

subsection \<open>ExecuteDestroyPipeline\<close>

text \<open>
  What one call of \<open>ExecuteDestroyPipeline\<close> meets outside itself: the results of
  \<^verbatim>\<open>os.Getwd\<close> and \<^verbatim>\<open>model.GetRepositoryURL\<close>, the functions
  \<^verbatim>\<open>getPipelineName\<close> and \<^verbatim>\<open>oktetoErrors.IsNotFound\<close> and the value
  \<^verbatim>\<open>oktetoErrors.ErrIntSig\<close> (all declared outside the source files), what the
  \<^verbatim>\<open>select\<close> of \<open>destroyPipeline\<close> receives, and the schedule of the threads of
  \<open>waitUntilDestroyed\<close>.
\<close>

record destroy_env =
  Getwd :: "perror + string"
  GetRepositoryURL :: "string \<Rightarrow> perror + string"
  getPipelineName :: "string \<Rightarrow> string"
  IsNotFound :: "perror \<Rightarrow> bool"
  ErrIntSig :: perror
  destroy_sel :: destroy_select
  wait_sched :: "wstep list"

text \<open>The function returns an error or \<^verbatim>\<open>nil\<close>, stays in the \<^verbatim>\<open>select\<close> of
  \<open>waitUntilDestroyed\<close>, or the process panics.\<close>

datatype presult = Return "perror option" | Blocked | Panic

text \<open>The first block: \<^verbatim>\<open>opts.Name\<close> as given, or derived from the repository.\<close>

definition pipeline_name :: "destroy_env \<Rightarrow> DestroyOptions \<Rightarrow> perror + string" where
  "pipeline_name env opts =
     (if opt_Name opts = [] then
        (case Getwd env of
           Inl e \<Rightarrow> Inl (Wrapf ''failed to get the current working directory: '' e)
         | Inr cwd \<Rightarrow>
             (case GetRepositoryURL env cwd of
                Inl e \<Rightarrow> Inl e
              | Inr repo \<Rightarrow> Inr (getPipelineName env repo)))
      else Inr (opt_Name opts))"

definition ExecuteDestroyPipeline ::
  "destroy_env \<Rightarrow> DestroyOptions \<Rightarrow> presult \<times> event list" where
  "ExecuteDestroyPipeline env opts =
     (case pipeline_name env opts of
        Inl e \<Rightarrow> (Return (Some e), [])
      | Inr nm \<Rightarrow>
          (case destroyPipeline nm (destroy_sel env) of
             ((resp, derr), out1) \<Rightarrow>
               if derr \<noteq> None \<and> \<not> IsNotFound env (the derr) then (Return derr, out1)
               else if \<not> opt_Wait opts then
                 (Return None,
                  out1 @ [Success (''Repository '' @ quoted nm @ '' scheduled for destruction'')])
               else if derr = None \<and> resp \<noteq> None then
                 (let s = waitUntilDestroyed (ErrIntSig env) nm (Action (the resp))
                            (wait_sched env)
                  in if panicked s then (Panic, out1 @ wout s)
                     else
                       (case returned s of
                          None \<Rightarrow> (Blocked, out1 @ wout s)
                        | Some (Some e) \<Rightarrow> (Return (Some e), out1 @ wout s)
                        | Some None \<Rightarrow>
                            (Return None,
                             out1 @ wout s @
                             [Success (''Repository '' @ quoted nm @ '' successfully destroyed'')])))
               else
                 (Return None,
                  out1 @ [Success (''Repository '' @ quoted nm @ '' successfully destroyed'')])))"

section \<open>Notions used to state the properties\<close>

text \<open>
  Names for parts of the loop body of \<open>update\<close>: \<open>register\<close> is the get-or-create
  at the top of the body, \<open>latch\<close> the two assignments after the error check, and
  \<open>vertex_ok\<close> the whole body for a descriptor without an error.
\<close>

definition register :: "Vertex \<Rightarrow> (string \<rightharpoonup> vertexInfo) \<Rightarrow> (string \<rightharpoonup> vertexInfo)" where
  "register rv og =
     (case og (Digest rv) of Some _ \<Rightarrow> og | None \<Rightarrow> og(Digest rv \<mapsto> new_vertexInfo rv))"

definition latch :: "Vertex \<Rightarrow> vertexInfo \<Rightarrow> vertexInfo" where
  "latch rv v =
     v\<lparr>cached := (cached v \<or> Cached rv), completed := (completed v \<or> Completed rv \<noteq> None)\<rparr>"

definition vertex_ok :: "Vertex \<Rightarrow> (string \<rightharpoonup> vertexInfo) \<Rightarrow> (string \<rightharpoonup> vertexInfo)" where
  "vertex_ok rv og =
     og(Digest rv \<mapsto> latch rv (case og (Digest rv) of Some v \<Rightarrow> v | None \<Rightarrow> new_vertexInfo rv))"

text \<open>
  \<open>same_payload old v\<close>: the step \<open>v\<close> has the log lines and the byte counters of the
  earlier entry \<open>old\<close> of its key (and its name), or those of a fresh step when there
  was none: no status and no log sub-event has been applied in between.
\<close>

definition same_payload :: "vertexInfo option \<Rightarrow> vertexInfo \<Rightarrow> bool" where
  "same_payload old v1 =
     (case old of
        Some v0 \<Rightarrow>
          logs v1 = logs v0 \<and> currentTransferedContext v1 = currentTransferedContext v0
          \<and> totalTransferedContext v1 = totalTransferedContext v0 \<and> name v1 = name v0
      | None \<Rightarrow>
          logs v1 = [] \<and> currentTransferedContext v1 = 0 \<and> totalTransferedContext v1 = 0)"

text \<open>A sequence of \<open>update\<close> calls on one trace, whatever each call returns.\<close>

fun updates :: "SolveStatus list \<Rightarrow> trace \<Rightarrow> trace" where
  "updates [] t = t"
| "updates (ss # sss) t = updates sss (snd (update ss t))"

text \<open>
  \<open>decoded unmarshal lg\<close> is the record that the loop of \<open>display\<close> goes on with
  for the line \<open>lg\<close>: none for an empty line, a line that fails to decode and a record
  without a stage. A stage is ordinary when it is neither of the two stages the
  \<^verbatim>\<open>switch\<close> singles out. An error line is a line whose record is at level
  \<^verbatim>\<open>error\<close> in an ordinary stage, and \<open>command_err\<close> is the
  \<^verbatim>\<open>buildkit.CommandErr\<close> built for it.
\<close>

definition decoded :: "(string \<Rightarrow> string + JSONLogFormat) \<Rightarrow> string \<Rightarrow> JSONLogFormat option" where
  "decoded unmarshal lg =
     (if lg = [] then None
      else (case unmarshal lg of
              Inl _ \<Rightarrow> None
            | Inr text \<Rightarrow> if Stage text = [] then None else Some text))"

definition ordinary_stage :: "string \<Rightarrow> bool" where
  "ordinary_stage s = (s \<noteq> ''done'' \<and> s \<noteq> ''Load manifest'')"

definition names_stage :: "(string \<Rightarrow> string + JSONLogFormat) \<Rightarrow> string \<Rightarrow> string \<Rightarrow> bool" where
  "names_stage unmarshal lg s =
     (case decoded unmarshal lg of None \<Rightarrow> False | Some text \<Rightarrow> Stage text = s)"

definition is_error_line :: "(string \<Rightarrow> string + JSONLogFormat) \<Rightarrow> string \<Rightarrow> bool" where
  "is_error_line unmarshal lg =
     (case decoded unmarshal lg of
        None \<Rightarrow> False
      | Some text \<Rightarrow> ordinary_stage (Stage text) \<and> Level text = ''error'')"

definition command_err :: "(string \<Rightarrow> string + JSONLogFormat) \<Rightarrow> mode \<Rightarrow> string \<Rightarrow> CommandErr" where
  "command_err unmarshal progress lg =
     (case unmarshal lg of
        Inr text \<Rightarrow> \<lparr>ce_Stage = Stage text, ce_Err = Message text, ce_Output = progress\<rparr>
      | Inl _ \<Rightarrow> \<lparr>ce_Stage = [], ce_Err = [], ce_Output = progress\<rparr>)"


text \<open>
  A one-way latch seen through a counter: \<open>once P a b n\<close> says that a latch that is
  open before (\<open>a\<close>) and after (\<open>b\<close>) a stretch of the run can only close during it, and
  that \<open>n\<close>, the number of times a message was printed in that stretch, is one exactly
  when the latch closed and \<open>P\<close> holds, and zero otherwise.
\<close>

definition once :: "bool \<Rightarrow> bool \<Rightarrow> bool \<Rightarrow> nat \<Rightarrow> bool" where
  "once P a b n = ((b \<longrightarrow> a) \<and> n = (if P \<and> a \<and> \<not> b then 1 else 0))"

text \<open>One turn of the loop of \<open>deployDisplayer\<close> on a batch that \<open>update\<close> accepts:
  \<open>update\<close>, \<open>display\<close>, \<open>removeCompletedSteps\<close>.\<close>

definition cycle ::
  "(string \<Rightarrow> string + JSONLogFormat) \<Rightarrow> (int64 \<Rightarrow> string) \<Rightarrow> mode \<Rightarrow> SolveStatus
     \<Rightarrow> string list \<Rightarrow> string list \<Rightarrow> trace \<Rightarrow> trace \<times> event list" where
  "cycle um fb m ss dks rks t =
     (let t1 = snd (update ss t);
          d = display um fb m dks t1;
          r = removeCompletedSteps rks (fst d)
      in (fst r, snd d @ snd r))"

text \<open>
  The language of \<open>nameRegex\<close>, written out: \<open>matches_nameRegex m n\<close> says that the
  text \<open>m\<close> matches the expression as a whole, with \<open>n\<close> the text of its group.
\<close>

definition matches_nameRegex :: "string \<Rightarrow> string \<Rightarrow> bool" where
  "matches_nameRegex m n =
     (\<exists>ws. m = ''--name'' @ ws @ [dquote] @ n @ [dquote]
           \<and> ws \<noteq> [] \<and> (\<forall>c\<in>set ws. is_space c) \<and> n \<noteq> [] \<and> dquote \<notin> set n)"

text \<open>What \<open>removeCompletedSteps\<close> prints for the key \<open>k\<close> of a registry.\<close>

definition step_notice :: "(string \<rightharpoonup> vertexInfo) \<Rightarrow> string \<Rightarrow> event list" where
  "step_notice og k =
     (case og k of
        None \<Rightarrow> []
      | Some v \<Rightarrow> if completed v then skip_notice v else [])"

text \<open>
  \<open>closer_waits s\<close>: the closing goroutine is still in \<^verbatim>\<open>wg.Wait()\<close>, no channel
  has been closed, and the counter of the wait group is 2 before the log-streaming
  goroutine has finished and 1 after.
\<close>

definition closer_waits :: "wstate \<Rightarrow> bool" where
  "closer_waits s =
     (closer_pc s = 0 \<and> stop_closes s = 0 \<and> exit_closes s = 0
      \<and> wg s = (if logs_done s then 1 else 2))"

section \<open>Concrete inputs\<close>

text \<open>
  A decoder for four log lines (every other line fails to decode), a formatter of byte
  counts, and a batch of three vertex descriptors of which the second carries an error.
\<close>

definition ex_unmarshal :: "string \<Rightarrow> string + JSONLogFormat" where
  "ex_unmarshal s =
     (if s = ''L'' then Inr \<lparr>Level = ''info'', Stage = ''build'', Message = ''hello''\<rparr>
      else if s = ''E1'' then Inr \<lparr>Level = ''error'', Stage = ''build'', Message = ''boom''\<rparr>
      else if s = ''E2'' then Inr \<lparr>Level = ''error'', Stage = ''test'', Message = ''bang''\<rparr>
      else if s = ''M'' then Inr \<lparr>Level = ''info'', Stage = ''Load manifest'', Message = ''m''\<rparr>
      else Inl ''invalid character'')"

definition ex_fmt_bytes :: "int64 \<Rightarrow> string" where
  "ex_fmt_bytes n = (if n = 60000000 then ''60.00MB'' else ''?'')"

definition ex_pull :: Vertex where
  "ex_pull = \<lparr>Digest = ''d1'', Name = ''pull'', Cached = True, Error = [], Completed = None\<rparr>"

definition ex_failed :: Vertex where
  "ex_failed =
     \<lparr>Digest = ''d2'', Name = ''build'', Cached = True, Error = ''boom'', Completed = Some 1\<rparr>"

definition ex_push :: Vertex where
  "ex_push = \<lparr>Digest = ''d3'', Name = ''push'', Cached = False, Error = [], Completed = None\<rparr>"

definition ex_failing_batch :: SolveStatus where
  "ex_failing_batch =
     \<lparr>Vertexes = [ex_pull, ex_failed, ex_push],
      Statuses = [\<lparr>st_Vertex = ''d1'', st_Completed = Some 2, st_Current = 7, st_Total = 9\<rparr>],
      Logs = [\<lparr>lg_Vertex = ''d1'', lg_Data = ''L''\<rparr>]\<rparr>"

text \<open>A batch without an error: the step \<open>d2\<close> again, with one log line.\<close>

definition ex_log_batch :: SolveStatus where
  "ex_log_batch =
     \<lparr>Vertexes = [\<lparr>Digest = ''d2'', Name = ''build'', Cached = False, Error = [],
                   Completed = Some 3\<rparr>],
      Statuses = [],
      Logs = [\<lparr>lg_Vertex = ''d2'', lg_Data = ''L''\<rparr>]\<rparr>"

text \<open>
  A trace in which the step \<open>d1\<close> is registered, cached and completed; a batch that
  completes \<open>d1\<close> by a vertex descriptor; a batch with a status update for \<open>d1\<close>
  that has no completion marker; a batch with both; and a batch whose vertex descriptor
  for \<open>d1\<close> has neither flag while its status update carries a marker.
\<close>

definition ex_step :: vertexInfo where
  "ex_step =
     \<lparr>name = ''pull'', logs = [], currentTransferedContext = 0, totalTransferedContext = 0,
      completed = True, cached = True\<rparr>"

definition ex_step_trace :: trace where
  "ex_step_trace =
     \<lparr>err = None, ongoing = [''d1'' \<mapsto> ex_step], stages = Map.empty, showCtxAdvice = True\<rparr>"

definition ex_done_vertex :: Vertex where
  "ex_done_vertex =
     \<lparr>Digest = ''d1'', Name = ''pull'', Cached = True, Error = [], Completed = Some 1\<rparr>"

definition ex_progress_status :: VertexStatus where
  "ex_progress_status =
     \<lparr>st_Vertex = ''d1'', st_Completed = None, st_Current = 7, st_Total = 9\<rparr>"

definition ex_done_batch :: SolveStatus where
  "ex_done_batch = \<lparr>Vertexes = [ex_done_vertex], Statuses = [], Logs = []\<rparr>"

definition ex_status_batch :: SolveStatus where
  "ex_status_batch = \<lparr>Vertexes = [], Statuses = [ex_progress_status], Logs = []\<rparr>"

definition ex_mixed_batch :: SolveStatus where
  "ex_mixed_batch =
     \<lparr>Vertexes = [ex_done_vertex], Statuses = [ex_progress_status], Logs = []\<rparr>"

definition ex_plain_batch :: SolveStatus where
  "ex_plain_batch =
     \<lparr>Vertexes = [\<lparr>Digest = ''d1'', Name = ''pull'', Cached = False, Error = [],
                   Completed = None\<rparr>],
      Statuses = [\<lparr>st_Vertex = ''d1'', st_Completed = Some 4, st_Current = 7, st_Total = 9\<rparr>],
      Logs = [\<lparr>lg_Vertex = ''d1'', lg_Data = ''L''\<rparr>]\<rparr>"



definition ex_build_logs :: SolveStatus where
  "ex_build_logs =
     \<lparr>Vertexes = [\<lparr>Digest = ''v2'', Name = ''run'', Cached = False, Error = [],
                   Completed = None\<rparr>],
      Statuses = [],
      Logs = [\<lparr>lg_Vertex = ''v2'', lg_Data = ''L'' @ [CHR 0x0A] @ ''E1''\<rparr>]\<rparr>"

definition ex_test_logs :: SolveStatus where
  "ex_test_logs =
     \<lparr>Vertexes = [], Statuses = [], Logs = [\<lparr>lg_Vertex = ''v2'', lg_Data = ''E2''\<rparr>]\<rparr>"

definition ex_manifest_logs :: SolveStatus where
  "ex_manifest_logs =
     \<lparr>Vertexes = [\<lparr>Digest = ''v2'', Name = ''run'', Cached = False, Error = [],
                   Completed = None\<rparr>],
      Statuses = [],
      Logs = [\<lparr>lg_Vertex = ''v2'', lg_Data = ''M''\<rparr>]\<rparr>"

text \<open>A registry with a completed, cached step of a remote test container, a
  completed step of another kind, and a step in progress.\<close>

definition ex_test_step :: vertexInfo where
  "ex_test_step =
     \<lparr>name = ''okteto remote-run test --name '' @ [CHR 0x22] @ ''unit'' @ [CHR 0x22]
               @ '' --log-output json'',
      logs = [], currentTransferedContext = 0, totalTransferedContext = 0,
      completed = True, cached = True\<rparr>"

definition ex_pull_step :: vertexInfo where
  "ex_pull_step =
     \<lparr>name = ''pull'', logs = [], currentTransferedContext = 5, totalTransferedContext = 5,
      completed = True, cached = True\<rparr>"

definition ex_running_step :: vertexInfo where
  "ex_running_step =
     \<lparr>name = ''remote-run test'', logs = [''L''], currentTransferedContext = 0,
      totalTransferedContext = 0, completed = False, cached = True\<rparr>"

definition ex_registry_trace :: trace where
  "ex_registry_trace =
     \<lparr>err = None,
      ongoing = [''a'' \<mapsto> ex_test_step, ''b'' \<mapsto> ex_pull_step, ''c'' \<mapsto> ex_running_step],
      stages = Map.empty, showCtxAdvice = True\<rparr>"

text \<open>
  A call for the pipeline \<open>app\<close>: the remote \<^verbatim>\<open>Destroy\<close> fails with an error that
  \<^verbatim>\<open>IsNotFound\<close> recognises (here: by its text), and the caller does not ask to wait.
\<close>

definition ex_destroy_env :: destroy_env where
  "ex_destroy_env =
     \<lparr>Getwd = Inr ''/work'',
      GetRepositoryURL = (\<lambda>cwd. Inr ''https://example.com/app''),
      getPipelineName = (\<lambda>repo. ''app''),
      IsNotFound = (\<lambda>e. Contains (Error_text e) ''not found''),
      ErrIntSig = Errorf ''interrupt signal received'',
      destroy_sel = SelExit None (Some (Errorf ''pipeline not found'')),
      wait_sched = []\<rparr>"

definition ex_destroy_opts :: DestroyOptions where
  "ex_destroy_opts =
     \<lparr>opt_Name = ''app'', opt_Namespace = ''dev'', opt_Wait = False,
      opt_DestroyVolumes = False, opt_Timeout = 300\<rparr>"

text \<open>A schedule of \<open>waitUntilDestroyed\<close> in which both background goroutines finish
  without an error, the function returns, and the closing goroutine is given three
  steps.\<close>

definition ex_both_finish :: "wstep list" where
  "ex_both_finish =
     [LogsReturn None, WaitReturn None, CloserStep, MainSelect False,
      CloserStep, CloserStep, CloserStep]"

text \<open>A trace in which the identifier \<open>d2\<close> is registered and not cached.\<close>

definition ex_uncached_step :: vertexInfo where
  "ex_uncached_step =
     \<lparr>name = ''build'', logs = [''L''], currentTransferedContext = 3,
      totalTransferedContext = 9, completed = False, cached = False\<rparr>"

definition ex_uncached_trace :: trace where
  "ex_uncached_trace =
     \<lparr>err = None, ongoing = [''d2'' \<mapsto> ex_uncached_step], stages = Map.empty,
      showCtxAdvice = True\<rparr>"

section \<open>Properties\<close>

lemma Split_nl_nonempty: "Split_nl s \<noteq> []"
  by (induction s) (auto split: list.splits)

subsection \<open>The vertex loop of update\<close>

lemma update_vertexes_Cons_ok:
  "Error rv = [] \<Longrightarrow> update_vertexes (rv # rest) og = update_vertexes rest (vertex_ok rv og)"
  by (auto simp: Let_def vertex_ok_def latch_def split: option.splits
      intro!: arg_cong2[where f=update_vertexes])

lemma update_vertexes_Cons_err:
  "Error rv \<noteq> [] \<Longrightarrow> update_vertexes (rv # rest) og = (Some (stage_error rv), register rv og)"
  by (auto simp: Let_def register_def split: option.splits)

declare update_vertexes.simps(2) [simp del]

lemma update_vertexes_no_error:
  "\<forall>x\<in>set vs. Error x = [] \<Longrightarrow> fst (update_vertexes vs og) = None"
  by (induction vs arbitrary: og) (auto simp: update_vertexes_Cons_ok)

lemma update_vertexes_first_error:
  "\<forall>x\<in>set pre. Error x = [] \<Longrightarrow> Error v \<noteq> [] \<Longrightarrow>
   update_vertexes (pre @ v # post) og =
     (Some (stage_error v), register v (snd (update_vertexes pre og)))"
proof (induction pre arbitrary: og)
  case Nil
  then show ?case by (simp add: update_vertexes_Cons_err)
next
  case (Cons a pre)
  then show ?case by (simp add: update_vertexes_Cons_ok)
qed

lemma vertex_ok_payload: "vertex_ok a og k = Some v \<Longrightarrow> same_payload (og k) v"
  by (auto simp: vertex_ok_def same_payload_def latch_def new_vertexInfo_def
      split: option.splits if_splits)

lemma vertex_ok_None: "vertex_ok a og k = None \<Longrightarrow> og k = None"
  by (auto simp: vertex_ok_def split: if_splits)

lemma register_payload: "register a og k = Some v \<Longrightarrow> same_payload (og k) v"
  by (auto simp: register_def same_payload_def new_vertexInfo_def split: option.splits if_splits)

lemma same_payload_trans:
  "same_payload (Some v) v1 \<Longrightarrow> same_payload old v \<Longrightarrow> same_payload old v1"
  by (auto simp: same_payload_def split: option.splits)

lemma update_vertexes_frame:
  "snd (update_vertexes vs og) k = Some v1 \<Longrightarrow> same_payload (og k) v1"
proof (induction vs arbitrary: og)
  case Nil
  then show ?case by (simp add: same_payload_def)
next
  case (Cons a vs)
  show ?case
  proof (cases "Error a = []")
    case False
    with Cons.prems show ?thesis
      by (simp add: update_vertexes_Cons_err register_payload)
  next
    case True
    with Cons.prems have "snd (update_vertexes vs (vertex_ok a og)) k = Some v1"
      by (simp add: update_vertexes_Cons_ok)
    then have ih: "same_payload (vertex_ok a og k) v1" by (rule Cons.IH)
    show ?thesis
    proof (cases "vertex_ok a og k")
      case None
      with ih vertex_ok_None[OF None] show ?thesis by simp
    next
      case (Some v)
      with ih vertex_ok_payload[OF Some] show ?thesis
        by (auto intro: same_payload_trans)
    qed
  qed
qed

lemma ongoing_newTrace: "ongoing newTrace = Map.empty"
  by (simp add: newTrace_def)

subsection \<open>An error in a vertex descriptor\<close>

lemma vertex_ok_other: "k \<noteq> Digest a \<Longrightarrow> vertex_ok a og k = og k"
  by (simp add: vertex_ok_def)

lemma update_vertexes_untouched:
  "\<forall>x\<in>set vs. Error x = [] \<Longrightarrow> k \<notin> Digest ` set vs \<Longrightarrow>
   snd (update_vertexes vs og) k = og k"
proof (induction vs arbitrary: og)
  case Nil
  then show ?case by simp
next
  case (Cons a vs)
  then have ok: "Error a = []" and rest: "\<forall>x\<in>set vs. Error x = []"
    and ka: "k \<noteq> Digest a" and kvs: "k \<notin> Digest ` set vs"
    by auto
  have "snd (update_vertexes vs (vertex_ok a og)) k = vertex_ok a og k"
    using rest kvs by (rule Cons.IH)
  with ok ka show ?case by (simp add: update_vertexes_Cons_ok vertex_ok_other)
qed

text \<open>
  Claim C10, as amended. When the batch given to \<open>update\<close> holds a vertex descriptor
  \<open>v\<close> with a non-empty error string, and no descriptor before it has one, \<open>update\<close>
  returns the error of \<open>v\<close> and the call does what it does on the batch cut off after
  \<open>v\<close> and without any status or log sub-event: the descriptors after \<open>v\<close>, the
  statuses and the logs are not looked at. The registry is the one the descriptors
  before \<open>v\<close> produced, with the identifier of \<open>v\<close> registered: under the name and
  cached flag of \<open>v\<close> when the identifier was new, and with its entry as it was
  otherwise, since the error is returned before the cached flag and the completion
  marker of \<open>v\<close> are latched. In particular an identifier that was registered before the
  call and that no earlier descriptor of the batch names keeps the entry it had. Every
  step still has the log lines and the byte counters it had before the call (none, for
  a step the call registered).
\<close>

theorem update_error_returns_before_the_rest:
  assumes "Vertexes ss = pre @ v # post"
    and "\<forall>x\<in>set pre. Error x = []"
    and "Error v \<noteq> []"
  shows "fst (update ss t) = Some (stage_error v)
       \<and> update ss t = update \<lparr>Vertexes = pre @ [v], Statuses = [], Logs = []\<rparr> t
       \<and> ongoing (snd (update ss t)) = register v (snd (update_vertexes pre (ongoing t)))
       \<and> ongoing (snd (update ss t)) (Digest v) =
           Some (case snd (update_vertexes pre (ongoing t)) (Digest v) of
                   Some vi \<Rightarrow> vi
                 | None \<Rightarrow> \<lparr>name = Name v, logs = [], currentTransferedContext = 0,
                             totalTransferedContext = 0, completed = False, cached = Cached v\<rparr>)
       \<and> (\<forall>k v1. ongoing (snd (update ss t)) k = Some v1 \<longrightarrow> same_payload (ongoing t k) v1)
       \<and> (\<forall>vi. ongoing t (Digest v) = Some vi \<and> Digest v \<notin> Digest ` set pre \<longrightarrow>
              ongoing (snd (update ss t)) (Digest v) = Some vi)"
proof -
  let ?og = "snd (update_vertexes pre (ongoing t))"
  have uv: "update_vertexes (Vertexes ss) (ongoing t) = (Some (stage_error v), register v ?og)"
    using assms by (simp add: update_vertexes_first_error)
  have uv': "update_vertexes (pre @ [v]) (ongoing t) = (Some (stage_error v), register v ?og)"
    using assms(2,3) update_vertexes_first_error[of pre v "[]" "ongoing t"] by simp
  have u: "update ss t = (Some (stage_error v), t\<lparr>ongoing := register v ?og\<rparr>)"
    by (simp add: update_def uv)
  have u': "update \<lparr>Vertexes = pre @ [v], Statuses = [], Logs = []\<rparr> t
              = (Some (stage_error v), t\<lparr>ongoing := register v ?og\<rparr>)"
    by (simp add: update_def uv')
  have entry: "register v ?og (Digest v) =
           Some (case ?og (Digest v) of
                   Some vi \<Rightarrow> vi
                 | None \<Rightarrow> \<lparr>name = Name v, logs = [], currentTransferedContext = 0,
                             totalTransferedContext = 0, completed = False, cached = Cached v\<rparr>)"
    by (simp add: register_def new_vertexInfo_def split: option.splits)
  have frame: "same_payload (ongoing t k) v1" if "register v ?og k = Some v1" for k v1
  proof -
    have "snd (update_vertexes (Vertexes ss) (ongoing t)) k = Some v1"
      using that by (simp add: uv)
    then show ?thesis by (rule update_vertexes_frame)
  qed
  have kept: "register v ?og (Digest v) = Some vi"
    if "ongoing t (Digest v) = Some vi \<and> Digest v \<notin> Digest ` set pre" for vi
  proof -
    from that assms(2) have "?og (Digest v) = ongoing t (Digest v)"
      by (intro update_vertexes_untouched) auto
    with that show ?thesis by (simp add: register_def)
  qed
  show ?thesis
    using u u' entry frame kept by simp
qed

theorem update_error_returns_before_the_rest_witness:
  "fst (update ex_failing_batch newTrace) = Some ''error on stage build: boom''
   \<and> ongoing (snd (update ex_failing_batch newTrace)) ''d2''
       = Some \<lparr>name = ''build'', logs = [], currentTransferedContext = 0,
               totalTransferedContext = 0, completed = False, cached = True\<rparr>
   \<and> ongoing (snd (update ex_failing_batch newTrace)) ''d1''
       = Some \<lparr>name = ''pull'', logs = [], currentTransferedContext = 0,
               totalTransferedContext = 0, completed = False, cached = True\<rparr>
   \<and> ongoing (snd (update ex_failing_batch newTrace)) ''d3'' = None
   \<and> fst (update ex_failing_batch ex_uncached_trace) = Some ''error on stage build: boom''
   \<and> ongoing (snd (update ex_failing_batch ex_uncached_trace)) ''d2'' = Some ex_uncached_step"
proof -
  have h1: "Vertexes ex_failing_batch = [ex_pull] @ ex_failed # [ex_push]"
    by (simp add: ex_failing_batch_def)
  have h2: "\<forall>x\<in>set [ex_pull]. Error x = []" by (simp add: ex_pull_def)
  have h3: "Error ex_failed \<noteq> []" by (simp add: ex_failed_def)
  note th = update_error_returns_before_the_rest [OF h1 h2 h3, of newTrace]
  from th have e: "fst (update ex_failing_batch newTrace) = Some (stage_error ex_failed)"
    by blast
  from th have og: "ongoing (snd (update ex_failing_batch newTrace))
      = register ex_failed (snd (update_vertexes [ex_pull] (ongoing newTrace)))"
    by blast
  have fresh: "fst (update ex_failing_batch newTrace) = Some ''error on stage build: boom''
   \<and> ongoing (snd (update ex_failing_batch newTrace)) ''d2''
       = Some \<lparr>name = ''build'', logs = [], currentTransferedContext = 0,
               totalTransferedContext = 0, completed = False, cached = True\<rparr>
   \<and> ongoing (snd (update ex_failing_batch newTrace)) ''d1''
       = Some \<lparr>name = ''pull'', logs = [], currentTransferedContext = 0,
               totalTransferedContext = 0, completed = False, cached = True\<rparr>
   \<and> ongoing (snd (update ex_failing_batch newTrace)) ''d3'' = None"
    by (simp add: e og update_vertexes_Cons_ok ongoing_newTrace stage_error_def register_def
        vertex_ok_def latch_def new_vertexInfo_def ex_pull_def ex_failed_def)
  note th2 = update_error_returns_before_the_rest [OF h1 h2 h3, of ex_uncached_trace]
  from th2 have e2: "fst (update ex_failing_batch ex_uncached_trace)
      = Some (stage_error ex_failed)"
    by blast
  have r: "ongoing ex_uncached_trace (Digest ex_failed) = Some ex_uncached_step
           \<and> Digest ex_failed \<notin> Digest ` set [ex_pull]"
    by (simp add: ex_uncached_trace_def ex_failed_def ex_pull_def)
  with th2 have k2: "ongoing (snd (update ex_failing_batch ex_uncached_trace)) (Digest ex_failed)
      = Some ex_uncached_step"
    by blast
  have registered: "fst (update ex_failing_batch ex_uncached_trace)
       = Some ''error on stage build: boom''
   \<and> ongoing (snd (update ex_failing_batch ex_uncached_trace)) ''d2'' = Some ex_uncached_step"
    using e2 k2 by (simp add: stage_error_def ex_failed_def)
  from fresh registered show ?thesis by simp
qed

text \<open>
  The claim as stated fails where the identifier of the erroring descriptor is already
  registered: the descriptor has its cached flag set, the step registered under its
  identifier does not, and after the call, which returns the error, the step is still
  not cached.
\<close>

theorem erroring_vertex_registered_with_its_flag_counterexample:
  "fst (update ex_failing_batch ex_uncached_trace) = Some ''error on stage build: boom''
   \<and> Digest ex_failed = ''d2'' \<and> Cached ex_failed = True
   \<and> map_option cached (ongoing ex_uncached_trace ''d2'') = Some False
   \<and> map_option cached (ongoing (snd (update ex_failing_batch ex_uncached_trace)) ''d2'')
       = Some False"
  by (simp add: update_def ex_failing_batch_def ex_pull_def ex_failed_def ex_push_def
      ex_uncached_trace_def ex_uncached_step_def update_vertexes_Cons_ok
      update_vertexes_Cons_err vertex_ok_def register_def latch_def new_vertexInfo_def
      stage_error_def)

text \<open>
  Claim C1, as amended. For a batch whose first erroneous vertex descriptor is \<open>v\<close>,
  \<open>update\<close> returns the error with the text "error on stage <name>: <error text>".
  The loop of \<open>deployDisplayer\<close> logs that text with \<^verbatim>\<open>oktetoLog.Info\<close>, skips
  \<open>display\<close> and \<open>removeCompletedSteps\<close> for this batch (whatever order they would
  have visited the registry in), and goes on with the receptions that follow, on the
  trace as \<open>update\<close> left it: it does not return.
\<close>

theorem displayer_logs_update_error_and_goes_on:
  assumes "Vertexes ss = pre @ v # post"
    and "\<forall>x\<in>set pre. Error x = []"
    and "Error v \<noteq> []"
  shows "fst (update ss t) = Some (''error on stage '' @ Name v @ '': '' @ Error v)
       \<and> displayer_loop unmarshal fmt_bytes outputMode (Received ss dks rks # rest) t =
           (case displayer_loop unmarshal fmt_bytes outputMode rest (snd (update ss t)) of
              (r, t', out) \<Rightarrow> (r, t', Info (''error on stage '' @ Name v @ '': '' @ Error v) # out))"
proof -
  have "update_vertexes (Vertexes ss) (ongoing t) =
          (Some (stage_error v), register v (snd (update_vertexes pre (ongoing t))))"
    using assms by (simp add: update_vertexes_first_error)
  then have u: "update ss t =
      (Some (stage_error v), t\<lparr>ongoing := register v (snd (update_vertexes pre (ongoing t)))\<rparr>)"
    by (simp add: update_def)
  show ?thesis
    by (simp add: u stage_error_def split: prod.splits)
qed

theorem displayer_logs_update_error_and_goes_on_witness:
  "fst (update ex_failing_batch newTrace) = Some ''error on stage build: boom''
   \<and> displayer_loop ex_unmarshal ex_fmt_bytes DeployOutputModeOnBuild
        [Received ex_failing_batch [''d1'', ''d2''] [''d1'', ''d2''], ChannelClosed] newTrace
     = (Returned None, snd (update ex_failing_batch newTrace),
        [Info ''error on stage build: boom'', StopSpinner])"
proof -
  have h1: "Vertexes ex_failing_batch = [ex_pull] @ ex_failed # [ex_push]"
    by (simp add: ex_failing_batch_def)
  have h2: "\<forall>x\<in>set [ex_pull]. Error x = []" by (simp add: ex_pull_def)
  have h3: "Error ex_failed \<noteq> []" by (simp add: ex_failed_def)
  note th = displayer_logs_update_error_and_goes_on [OF h1 h2 h3, of newTrace ex_unmarshal
      ex_fmt_bytes DeployOutputModeOnBuild "[''d1'', ''d2'']" "[''d1'', ''d2'']" "[ChannelClosed]"]
  have e: "err (snd (update ex_failing_batch newTrace)) = None"
    by (simp add: update_def newTrace_def split: prod.splits option.splits)
  from th e show ?thesis
    by (simp add: ex_failed_def)
qed

text \<open>
  The claim as stated fails: after a batch with an erroneous vertex the loop is still
  waiting for events, and the next batch is displayed (the stage is announced and its
  message printed) and pruned (the completed step \<open>d2\<close> is removed).
\<close>

theorem displayer_stops_on_update_error_counterexample:
  "fst (deployDisplayer ex_unmarshal ex_fmt_bytes DeployOutputModeOnBuild
          [Received ex_failing_batch [''d1'', ''d2''] [''d1'', ''d2''],
           Received ex_log_batch [''d1'', ''d2''] [''d1'', ''d2'']]) = Waiting
   \<and> snd (snd (deployDisplayer ex_unmarshal ex_fmt_bytes DeployOutputModeOnBuild
          [Received ex_failing_batch [''d1'', ''d2''] [''d1'', ''d2''],
           Received ex_log_batch [''d1'', ''d2''] [''d1'', ''d2'']]))
     = [Spinner ''Synchronizing context...'', StartSpinner,
        Info ''error on stage build: boom'',
        Spinner ''Deploying your development environment...'',
        SetStage ''build'', Information (running_stage ''build''), Println ''hello'',
        SetStage []]
   \<and> ongoing (fst (snd (deployDisplayer ex_unmarshal ex_fmt_bytes DeployOutputModeOnBuild
          [Received ex_failing_batch [''d1'', ''d2''] [''d1'', ''d2''],
           Received ex_log_batch [''d1'', ''d2''] [''d1'', ''d2'']]))) ''d2'' = None"
  by (simp add: deployDisplayer_def select_outputMode_def newTrace_def update_def
      ex_failing_batch_def ex_log_batch_def ex_pull_def ex_failed_def ex_push_def
      ex_unmarshal_def
      update_vertexes_Cons_ok update_vertexes_Cons_err vertex_ok_def register_def latch_def
      new_vertexInfo_def stage_error_def display_vertex_def isTransferringContext_def
      HasPrefix_def hasCommandLogs_def display_log_def progress_spinner_def running_stage_def
      remove_step_def skip_notice_def)

subsection \<open>The cached and completed flags under update\<close>

lemma vertex_ok_cached:
  "og k = Some v \<Longrightarrow> cached v \<Longrightarrow> \<exists>v'. vertex_ok a og k = Some v' \<and> cached v'"
  by (auto simp: vertex_ok_def latch_def)

lemma vertex_ok_completed:
  "og k = Some v \<Longrightarrow> completed v \<Longrightarrow> \<exists>v'. vertex_ok a og k = Some v' \<and> completed v'"
  by (auto simp: vertex_ok_def latch_def)

lemma vertex_ok_registered: "og k \<noteq> None \<Longrightarrow> vertex_ok a og k \<noteq> None"
  by (auto simp: vertex_ok_def)

lemma register_keeps: "og k = Some v \<Longrightarrow> register a og k = Some v"
  by (auto simp: register_def split: option.splits)

lemma update_vertexes_registered:
  "og k \<noteq> None \<Longrightarrow> snd (update_vertexes vs og) k \<noteq> None"
proof (induction vs arbitrary: og)
  case Nil
  then show ?case by simp
next
  case (Cons a vs)
  show ?case
  proof (cases "Error a = []")
    case False
    with Cons.prems show ?thesis
      by (auto simp: update_vertexes_Cons_err register_keeps)
  next
    case True
    have "snd (update_vertexes vs (vertex_ok a og)) k \<noteq> None"
      by (rule Cons.IH) (rule vertex_ok_registered, rule Cons.prems)
    with True show ?thesis by (simp add: update_vertexes_Cons_ok)
  qed
qed

lemma update_vertexes_cached:
  "og k = Some v \<Longrightarrow> cached v \<Longrightarrow> map_option cached (snd (update_vertexes vs og) k) = Some True"
proof (induction vs arbitrary: og v)
  case Nil
  then show ?case by simp
next
  case (Cons a vs)
  show ?case
  proof (cases "Error a = []")
    case False
    with Cons.prems show ?thesis
      by (simp add: update_vertexes_Cons_err register_keeps)
  next
    case True
    from vertex_ok_cached[where og=og and k=k and a=a, OF Cons.prems] obtain v1 where
      v1: "vertex_ok a og k = Some v1" "cached v1" by blast
    have "map_option cached (snd (update_vertexes vs (vertex_ok a og)) k) = Some True"
      using v1 by (rule Cons.IH)
    with True show ?thesis by (simp add: update_vertexes_Cons_ok)
  qed
qed

lemma update_vertexes_completed:
  "og k = Some v \<Longrightarrow> completed v \<Longrightarrow>
   map_option completed (snd (update_vertexes vs og) k) = Some True"
proof (induction vs arbitrary: og v)
  case Nil
  then show ?case by simp
next
  case (Cons a vs)
  show ?case
  proof (cases "Error a = []")
    case False
    with Cons.prems show ?thesis
      by (simp add: update_vertexes_Cons_err register_keeps)
  next
    case True
    from vertex_ok_completed[where og=og and k=k and a=a, OF Cons.prems] obtain v1 where
      v1: "vertex_ok a og k = Some v1" "completed v1" by blast
    have "map_option completed (snd (update_vertexes vs (vertex_ok a og)) k) = Some True"
      using v1 by (rule Cons.IH)
    with True show ?thesis by (simp add: update_vertexes_Cons_ok)
  qed
qed

lemma update_statuses_append:
  "update_statuses (a @ b) og = update_statuses b (update_statuses a og)"
  by (induction a arbitrary: og) (auto split: option.splits)

lemma update_statuses_other:
  "\<forall>x\<in>set sts. st_Vertex x \<noteq> k \<Longrightarrow> update_statuses sts og k = og k"
  by (induction sts arbitrary: og) (auto split: option.splits)

lemma update_statuses_registered: "(update_statuses sts og k = None) = (og k = None)"
  by (induction sts arbitrary: og) (auto split: option.splits)

lemma update_statuses_cached:
  "map_option cached (update_statuses sts og k) = map_option cached (og k)"
  by (induction sts arbitrary: og) (auto split: option.splits)

lemma update_statuses_name:
  "map_option name (update_statuses sts og k) = map_option name (og k)"
  by (induction sts arbitrary: og) (auto split: option.splits)

lemma update_statuses_completed:
  "og k = Some v \<Longrightarrow> completed v \<Longrightarrow>
   \<forall>s\<in>set sts. st_Vertex s = k \<longrightarrow> st_Completed s \<noteq> None \<Longrightarrow>
   map_option completed (update_statuses sts og k) = Some True"
proof (induction sts arbitrary: og v)
  case Nil
  then show ?case by simp
next
  case (Cons s sts)
  have rest: "\<forall>s\<in>set sts. st_Vertex s = k \<longrightarrow> st_Completed s \<noteq> None"
    using Cons.prems(3) by simp
  show ?case
  proof (cases "og (st_Vertex s)")
    case None
    have "map_option completed (update_statuses sts og k) = Some True"
      using Cons.prems(1,2) rest by (rule Cons.IH)
    with None show ?thesis by simp
  next
    case (Some w)
    let ?w = "w\<lparr>completed := (st_Completed s \<noteq> None),
                 currentTransferedContext := st_Current s,
                 totalTransferedContext := st_Total s\<rparr>"
    show ?thesis
    proof (cases "st_Vertex s = k")
      case True
      then have c: "st_Completed s \<noteq> None" using Cons.prems(3) by simp
      have 1: "(og(st_Vertex s \<mapsto> ?w)) k = Some ?w" using True by simp
      have 2: "completed ?w" using c by simp
      have "map_option completed (update_statuses sts (og(st_Vertex s \<mapsto> ?w)) k) = Some True"
        using 1 2 rest by (rule Cons.IH)
      with Some show ?thesis by simp
    next
      case False
      then have 1: "(og(st_Vertex s \<mapsto> ?w)) k = Some v" using Cons.prems(1) by simp
      have "map_option completed (update_statuses sts (og(st_Vertex s \<mapsto> ?w)) k) = Some True"
        using 1 Cons.prems(2) rest by (rule Cons.IH)
      with Some show ?thesis by simp
    qed
  qed
qed

lemma update_logs_registered: "(update_logs ls og k = None) = (og k = None)"
  by (induction ls arbitrary: og) (auto split: option.splits)

lemma update_logs_cached: "map_option cached (update_logs ls og k) = map_option cached (og k)"
  by (induction ls arbitrary: og) (auto split: option.splits)

lemma update_logs_completed:
  "map_option completed (update_logs ls og k) = map_option completed (og k)"
  by (induction ls arbitrary: og) (auto split: option.splits)

lemma update_logs_current:
  "map_option currentTransferedContext (update_logs ls og k)
     = map_option currentTransferedContext (og k)"
  by (induction ls arbitrary: og) (auto split: option.splits)

lemma update_logs_total:
  "map_option totalTransferedContext (update_logs ls og k)
     = map_option totalTransferedContext (og k)"
  by (induction ls arbitrary: og) (auto split: option.splits)

lemma update_registered:
  assumes "ongoing t k \<noteq> None"
  shows "ongoing (snd (update ss t)) k \<noteq> None"
proof -
  obtain e og where uv: "update_vertexes (Vertexes ss) (ongoing t) = (e, og)"
    by (cases "update_vertexes (Vertexes ss) (ongoing t)")
  have og: "og k \<noteq> None"
    using update_vertexes_registered[where og="ongoing t" and k=k and vs="Vertexes ss"] assms uv
    by simp
  show ?thesis
  proof (cases e)
    case (Some x)
    with uv og show ?thesis by (simp add: update_def)
  next
    case None
    with uv og show ?thesis
      by (simp add: update_def update_logs_registered update_statuses_registered)
  qed
qed

lemma update_cached:
  assumes "ongoing t k = Some v" "cached v"
  shows "map_option cached (ongoing (snd (update ss t)) k) = Some True"
proof -
  obtain e og where uv: "update_vertexes (Vertexes ss) (ongoing t) = (e, og)"
    by (cases "update_vertexes (Vertexes ss) (ongoing t)")
  have og: "map_option cached (og k) = Some True"
    using update_vertexes_cached[where og="ongoing t" and k=k and vs="Vertexes ss", OF assms] uv
    by simp
  show ?thesis
  proof (cases e)
    case (Some x)
    with uv og show ?thesis by (simp add: update_def)
  next
    case None
    with uv og show ?thesis
      by (simp add: update_def update_logs_cached update_statuses_cached)
  qed
qed

lemma update_completed:
  assumes "ongoing t k = Some v" "completed v"
    and "\<forall>s\<in>set (Statuses ss). st_Vertex s = k \<longrightarrow> st_Completed s \<noteq> None"
  shows "map_option completed (ongoing (snd (update ss t)) k) = Some True"
proof -
  obtain e og where uv: "update_vertexes (Vertexes ss) (ongoing t) = (e, og)"
    by (cases "update_vertexes (Vertexes ss) (ongoing t)")
  from update_vertexes_completed[where og="ongoing t" and k=k and vs="Vertexes ss", OF assms(1,2)]
  obtain v1 where v1: "og k = Some v1" "completed v1" using uv by auto
  show ?thesis
  proof (cases e)
    case (Some x)
    with uv v1 show ?thesis by (simp add: update_def)
  next
    case None
    have "map_option completed (update_statuses (Statuses ss) og k) = Some True"
      using v1 assms(3) by (rule update_statuses_completed)
    with None uv show ?thesis by (simp add: update_def update_logs_completed)
  qed
qed

lemma updates_latch:
  assumes "ongoing t k = Some v"
  shows "\<exists>v'. ongoing (updates sss t) k = Some v' \<and> (cached v \<longrightarrow> cached v')
        \<and> (completed v
             \<and> (\<forall>ss\<in>set sss. \<forall>s\<in>set (Statuses ss). st_Vertex s = k \<longrightarrow> st_Completed s \<noteq> None)
             \<longrightarrow> completed v')"
  using assms
proof (induction sss arbitrary: t v)
  case Nil
  then show ?case by simp
next
  case (Cons ss sss)
  from update_registered[of t k ss] Cons.prems obtain v1 where
    v1: "ongoing (snd (update ss t)) k = Some v1" by auto
  have c1: "cached v1" if "cached v"
    using update_cached[OF Cons.prems that, of ss] v1 by simp
  have d1: "completed v1"
    if "completed v" "\<forall>s\<in>set (Statuses ss). st_Vertex s = k \<longrightarrow> st_Completed s \<noteq> None"
    using update_completed[OF Cons.prems that] v1 by simp
  have "\<exists>v'. ongoing (updates sss (snd (update ss t))) k = Some v' \<and> (cached v1 \<longrightarrow> cached v')
        \<and> (completed v1
             \<and> (\<forall>ss\<in>set sss. \<forall>s\<in>set (Statuses ss). st_Vertex s = k \<longrightarrow> st_Completed s \<noteq> None)
             \<longrightarrow> completed v')"
    using v1 by (rule Cons.IH)
  then obtain v' where
    v': "ongoing (updates sss (snd (update ss t))) k = Some v'" "cached v1 \<longrightarrow> cached v'"
      "completed v1
        \<and> (\<forall>ss\<in>set sss. \<forall>s\<in>set (Statuses ss). st_Vertex s = k \<longrightarrow> st_Completed s \<noteq> None)
        \<longrightarrow> completed v'"
    by blast
  show ?case
  proof (intro exI[of _ v'] conjI impI)
    show "ongoing (updates (ss # sss) t) k = Some v'" using v'(1) by simp
    show "cached v'" if "cached v" using that c1 v'(2) by simp
    show "completed v'"
      if "completed v \<and>
          (\<forall>ss\<in>set (ss # sss). \<forall>s\<in>set (Statuses ss). st_Vertex s = k \<longrightarrow> st_Completed s \<noteq> None)"
      using that d1 v'(3) by simp
  qed
qed


subsection \<open>Status updates\<close>

lemma vertex_ok_self: "vertex_ok a og (Digest a) \<noteq> None"
  by (simp add: vertex_ok_def)

lemma update_vertexes_registers:
  "\<forall>x\<in>set vs. Error x = [] \<Longrightarrow> k \<in> Digest ` set vs \<Longrightarrow>
   snd (update_vertexes vs og) k \<noteq> None"
proof (induction vs arbitrary: og)
  case Nil
  then show ?case by simp
next
  case (Cons a vs)
  then have ok: "Error a = []" by simp
  show ?case
  proof (cases "k = Digest a")
    case True
    have "snd (update_vertexes vs (vertex_ok a og)) k \<noteq> None"
      unfolding True by (rule update_vertexes_registered) (rule vertex_ok_self)
    with ok show ?thesis by (simp add: update_vertexes_Cons_ok)
  next
    case False
    with Cons.prems have "k \<in> Digest ` set vs" by auto
    moreover from Cons.prems have "\<forall>x\<in>set vs. Error x = []" by simp
    ultimately have "snd (update_vertexes vs (vertex_ok a og)) k \<noteq> None"
      by (rule Cons.IH[rotated])
    with ok show ?thesis by (simp add: update_vertexes_Cons_ok)
  qed
qed

lemma update_statuses_last:
  assumes "og (st_Vertex s) \<noteq> None" and "\<forall>x\<in>set post. st_Vertex x \<noteq> st_Vertex s"
  shows "\<exists>w. update_statuses (pre @ s # post) og (st_Vertex s) =
           Some (w\<lparr>completed := (st_Completed s \<noteq> None),
                   currentTransferedContext := st_Current s,
                   totalTransferedContext := st_Total s\<rparr>)"
proof -
  let ?og1 = "update_statuses pre og"
  from assms(1) have "?og1 (st_Vertex s) \<noteq> None"
    by (simp add: update_statuses_registered)
  then obtain w where w: "?og1 (st_Vertex s) = Some w" by auto
  let ?w = "w\<lparr>completed := (st_Completed s \<noteq> None),
                   currentTransferedContext := st_Current s,
                   totalTransferedContext := st_Total s\<rparr>"
  have "update_statuses (pre @ s # post) og = update_statuses post (?og1(st_Vertex s \<mapsto> ?w))"
    using w by (simp add: update_statuses_append)
  then have "update_statuses (pre @ s # post) og (st_Vertex s) = Some ?w"
    using update_statuses_other[OF assms(2), of "?og1(st_Vertex s \<mapsto> ?w)"] by simp
  then show ?thesis by blast
qed

text \<open>
  Claim C3, as amended. In a batch whose vertex descriptors carry no error, let \<open>s\<close> be
  the last status update for its identifier, and let the identifier be registered
  (before the call, or by a vertex descriptor of the batch). After \<open>update\<close> the
  step holds the byte counters of \<open>s\<close>, and its \<open>completed\<close> field, the only one
  the step has, says whether \<open>s\<close> carried a completion marker: what the vertex
  descriptors had latched into that field is overwritten.
\<close>

theorem status_overwrites_the_single_completed_field:
  assumes "\<forall>x\<in>set (Vertexes ss). Error x = []"
    and "Statuses ss = pre @ s # post"
    and "\<forall>x\<in>set post. st_Vertex x \<noteq> st_Vertex s"
    and "ongoing t (st_Vertex s) \<noteq> None \<or> st_Vertex s \<in> Digest ` set (Vertexes ss)"
  shows "\<exists>v. ongoing (snd (update ss t)) (st_Vertex s) = Some v
           \<and> currentTransferedContext v = st_Current s
           \<and> totalTransferedContext v = st_Total s
           \<and> completed v = (st_Completed s \<noteq> None)"
proof -
  obtain e og where uv: "update_vertexes (Vertexes ss) (ongoing t) = (e, og)"
    by (cases "update_vertexes (Vertexes ss) (ongoing t)")
  have e: "e = None"
    using update_vertexes_no_error[OF assms(1), of "ongoing t"] uv by simp
  have og: "og (st_Vertex s) \<noteq> None"
  proof (cases "ongoing t (st_Vertex s) \<noteq> None")
    case True
    from update_vertexes_registered[where og="ongoing t" and vs="Vertexes ss", OF True] uv
    show ?thesis by simp
  next
    case False
    with assms(4) have "st_Vertex s \<in> Digest ` set (Vertexes ss)" by simp
    from update_vertexes_registers[OF assms(1) this, of "ongoing t"] uv
    show ?thesis by simp
  qed
  from update_statuses_last[where og=og and s=s and post=post and pre=pre, OF og assms(3)] obtain w where
    w: "update_statuses (Statuses ss) og (st_Vertex s) =
           Some (w\<lparr>completed := (st_Completed s \<noteq> None),
                   currentTransferedContext := st_Current s,
                   totalTransferedContext := st_Total s\<rparr>)"
    using assms(2) by auto
  let ?og2 = "update_logs (Logs ss) (update_statuses (Statuses ss) og)"
  have u: "ongoing (snd (update ss t)) = ?og2"
    using uv e by (simp add: update_def)
  from w have "?og2 (st_Vertex s) \<noteq> None" by (simp add: update_logs_registered)
  then obtain v where v: "?og2 (st_Vertex s) = Some v" by auto
  have "map_option currentTransferedContext (?og2 (st_Vertex s)) = Some (st_Current s)"
    "map_option totalTransferedContext (?og2 (st_Vertex s)) = Some (st_Total s)"
    "map_option completed (?og2 (st_Vertex s)) = Some (st_Completed s \<noteq> None)"
    using w by (simp_all add: update_logs_current update_logs_total update_logs_completed)
  with v u show ?thesis by simp
qed

lemma update_no_error_ongoing:
  "fst (update ss t) = None \<Longrightarrow>
   ongoing (snd (update ss t))
     = update_logs (Logs ss)
         (update_statuses (Statuses ss) (snd (update_vertexes (Vertexes ss) (ongoing t))))"
  by (cases "update_vertexes (Vertexes ss) (ongoing t)")
     (auto simp: update_def split: option.splits)

lemma update_error_ongoing:
  "fst (update ss t) \<noteq> None \<Longrightarrow>
   ongoing (snd (update ss t)) = snd (update_vertexes (Vertexes ss) (ongoing t))"
  by (cases "update_vertexes (Vertexes ss) (ongoing t)")
     (auto simp: update_def split: option.splits)

lemma update_last_status_completed:
  assumes "ongoing t k = Some v"
    and "fst (update ss t) = None"
    and "Statuses ss = pre @ s # post"
    and "st_Vertex s = k"
    and "\<forall>x\<in>set post. st_Vertex x \<noteq> k"
  shows "map_option completed (ongoing (snd (update ss t)) k) = Some (st_Completed s \<noteq> None)"
proof -
  let ?og = "snd (update_vertexes (Vertexes ss) (ongoing t))"
  have "ongoing t (st_Vertex s) \<noteq> None" using assms(1,4) by simp
  then have og: "?og (st_Vertex s) \<noteq> None" by (rule update_vertexes_registered)
  have post: "\<forall>x\<in>set post. st_Vertex x \<noteq> st_Vertex s" using assms(4,5) by simp
  from update_statuses_last[where og="?og" and s=s and post=post and pre=pre, OF og post]
  obtain w where
    "update_statuses (Statuses ss) ?og k =
       Some (w\<lparr>completed := (st_Completed s \<noteq> None),
               currentTransferedContext := st_Current s,
               totalTransferedContext := st_Total s\<rparr>)"
    using assms(3,4) by auto
  then show ?thesis
    by (simp add: update_no_error_ongoing[OF assms(2)] update_logs_completed)
qed

lemma update_error_completed:
  assumes "ongoing t k = Some v" and "completed v" and "fst (update ss t) \<noteq> None"
  shows "map_option completed (ongoing (snd (update ss t)) k) = Some True"
  unfolding update_error_ongoing[OF assms(3)]
  using assms(1,2) by (rule update_vertexes_completed)

text \<open>
  Claim C2, as amended. Over every sequence of \<open>update\<close> calls a registered step
  stays registered and its cached flag, once true, stays true. Its completed flag, once
  true, stays true as long as every status update for the step in the sequence carries
  a completion marker. In a single call the flag is decided as follows. When the call
  returns no error and the batch has a status update for the step, the flag becomes
  what the last such status says: false when that status has no completion marker,
  whatever the flag was and whatever the vertex descriptors of the batch carry. When
  the call returns an error (the statuses are then not applied), or the batch has no
  status update for the step, a flag that was true stays true: no vertex descriptor and
  no log chunk resets it.
\<close>

theorem cached_latched_completed_reset_only_by_status:
  assumes "ongoing t k = Some v"
  shows "(\<exists>v'. ongoing (updates sss t) k = Some v' \<and> (cached v \<longrightarrow> cached v')
            \<and> (completed v
                 \<and> (\<forall>ss\<in>set sss. \<forall>s\<in>set (Statuses ss).
                        st_Vertex s = k \<longrightarrow> st_Completed s \<noteq> None)
                 \<longrightarrow> completed v'))
       \<and> (fst (update ss t) = None \<and> Statuses ss = pre @ s # post \<and> st_Vertex s = k
            \<and> (\<forall>x\<in>set post. st_Vertex x \<noteq> k) \<longrightarrow>
            (\<exists>v'. ongoing (snd (update ss t)) k = Some v'
                  \<and> completed v' = (st_Completed s \<noteq> None)
                  \<and> (cached v \<longrightarrow> cached v')))
       \<and> (fst (update ss t) \<noteq> None \<or> (\<forall>x\<in>set (Statuses ss). st_Vertex x \<noteq> k) \<longrightarrow>
            (\<exists>v'. ongoing (snd (update ss t)) k = Some v'
                  \<and> (completed v \<longrightarrow> completed v')
                  \<and> (cached v \<longrightarrow> cached v')))"
proof (intro conjI impI)
  show "\<exists>v'. ongoing (updates sss t) k = Some v' \<and> (cached v \<longrightarrow> cached v')
            \<and> (completed v
                 \<and> (\<forall>ss\<in>set sss. \<forall>s\<in>set (Statuses ss).
                        st_Vertex s = k \<longrightarrow> st_Completed s \<noteq> None)
                 \<longrightarrow> completed v')"
    using assms by (rule updates_latch)
  from update_registered[of t k ss] assms obtain v1 where
    v1: "ongoing (snd (update ss t)) k = Some v1" by auto
  have c1: "cached v1" if "cached v"
    using update_cached[OF assms that, of ss] v1 by simp
  {
    assume h: "fst (update ss t) = None \<and> Statuses ss = pre @ s # post \<and> st_Vertex s = k
            \<and> (\<forall>x\<in>set post. st_Vertex x \<noteq> k)"
    then have "map_option completed (ongoing (snd (update ss t)) k)
                 = Some (st_Completed s \<noteq> None)"
      using assms by (intro update_last_status_completed) auto
    with v1 have "completed v1 = (st_Completed s \<noteq> None)" by simp
    with v1 c1 show "\<exists>v'. ongoing (snd (update ss t)) k = Some v'
                  \<and> completed v' = (st_Completed s \<noteq> None)
                  \<and> (cached v \<longrightarrow> cached v')"
      by blast
  }
  {
    assume h: "fst (update ss t) \<noteq> None \<or> (\<forall>x\<in>set (Statuses ss). st_Vertex x \<noteq> k)"
    have "completed v1" if c: "completed v"
    proof (cases "fst (update ss t) \<noteq> None")
      case True
      from update_error_completed[OF assms c True] v1 show ?thesis by simp
    next
      case False
      with h have "\<forall>s\<in>set (Statuses ss). st_Vertex s = k \<longrightarrow> st_Completed s \<noteq> None"
        by auto
      from update_completed[OF assms c this] v1 show ?thesis by simp
    qed
    with v1 c1 show "\<exists>v'. ongoing (snd (update ss t)) k = Some v'
                  \<and> (completed v \<longrightarrow> completed v')
                  \<and> (cached v \<longrightarrow> cached v')"
      by blast
  }
qed

subsection \<open>Instances of C2 and C3\<close>

theorem cached_latched_completed_reset_only_by_status_witness:
  "map_option cached (ongoing (updates [ex_plain_batch, ex_done_batch] ex_step_trace) ''d1'')
     = Some True
   \<and> map_option completed (ongoing (updates [ex_plain_batch, ex_done_batch] ex_step_trace) ''d1'')
     = Some True
   \<and> map_option completed (ongoing (snd (update ex_status_batch ex_step_trace)) ''d1'')
     = Some False
   \<and> map_option cached (ongoing (snd (update ex_status_batch ex_step_trace)) ''d1'')
     = Some True
   \<and> map_option completed (ongoing (snd (update ex_failing_batch ex_step_trace)) ''d1'')
     = Some True"
proof -
  have h: "ongoing ex_step_trace ''d1'' = Some ex_step"
    by (simp add: ex_step_trace_def)
  have c: "cached ex_step" "completed ex_step"
    by (simp_all add: ex_step_def)
  have m: "\<forall>ss\<in>set [ex_plain_batch, ex_done_batch].
             \<forall>s\<in>set (Statuses ss). st_Vertex s = ''d1'' \<longrightarrow> st_Completed s \<noteq> None"
    by (simp add: ex_plain_batch_def ex_done_batch_def)
  have ok: "fst (update ex_status_batch ex_step_trace) = None"
    by (simp add: update_def ex_status_batch_def)
  have st: "Statuses ex_status_batch = [] @ ex_progress_status # []"
    "st_Vertex ex_progress_status = ''d1''" "st_Completed ex_progress_status = None"
    by (simp_all add: ex_status_batch_def ex_progress_status_def)
  have bad: "fst (update ex_failing_batch ex_step_trace) \<noteq> None"
    by (simp add: update_def ex_failing_batch_def ex_pull_def ex_failed_def
        update_vertexes_Cons_ok update_vertexes_Cons_err)
  from cached_latched_completed_reset_only_by_status
         [OF h, of "[ex_plain_batch, ex_done_batch]" ex_status_batch "[]"
            ex_progress_status "[]"] c m ok st
  have a: "map_option cached
             (ongoing (updates [ex_plain_batch, ex_done_batch] ex_step_trace) ''d1'') = Some True
     \<and> map_option completed
             (ongoing (updates [ex_plain_batch, ex_done_batch] ex_step_trace) ''d1'') = Some True
     \<and> map_option completed (ongoing (snd (update ex_status_batch ex_step_trace)) ''d1'')
         = Some False
     \<and> map_option cached (ongoing (snd (update ex_status_batch ex_step_trace)) ''d1'')
         = Some True"
    by auto
  from cached_latched_completed_reset_only_by_status
         [OF h, of "[]" ex_failing_batch "[]" ex_progress_status "[]"] c bad
  have b: "map_option completed (ongoing (snd (update ex_failing_batch ex_step_trace)) ''d1'')
         = Some True"
    by auto
  from a b show ?thesis by simp
qed

text \<open>
  Claim C2 as stated fails for the completed flag: a vertex descriptor completes the
  step \<open>d1\<close>, and a later status update without a completion marker resets the flag.
\<close>

theorem completed_is_a_latch_counterexample:
  "map_option completed (ongoing (updates [ex_done_batch] newTrace) ''d1'') = Some True
   \<and> map_option completed (ongoing (updates [ex_done_batch, ex_status_batch] newTrace) ''d1'')
     = Some False"
  by (simp add: ex_done_batch_def ex_status_batch_def ex_done_vertex_def ex_progress_status_def
      update_def update_vertexes_Cons_ok vertex_ok_def latch_def new_vertexInfo_def
      ongoing_newTrace)

theorem status_overwrites_the_single_completed_field_witness:
  "map_option currentTransferedContext (ongoing (snd (update ex_mixed_batch newTrace)) ''d1'')
     = Some 7
   \<and> map_option totalTransferedContext (ongoing (snd (update ex_mixed_batch newTrace)) ''d1'')
     = Some 9
   \<and> map_option completed (ongoing (snd (update ex_mixed_batch newTrace)) ''d1'') = Some False"
proof -
  have h1: "\<forall>x\<in>set (Vertexes ex_mixed_batch). Error x = []"
    by (simp add: ex_mixed_batch_def ex_done_vertex_def)
  have h2: "Statuses ex_mixed_batch = [] @ ex_progress_status # []"
    by (simp add: ex_mixed_batch_def)
  have h3: "\<forall>x\<in>set []. st_Vertex x \<noteq> st_Vertex ex_progress_status" by simp
  have h4: "ongoing newTrace (st_Vertex ex_progress_status) \<noteq> None
            \<or> st_Vertex ex_progress_status \<in> Digest ` set (Vertexes ex_mixed_batch)"
    by (simp add: ex_mixed_batch_def ex_done_vertex_def ex_progress_status_def)
  from status_overwrites_the_single_completed_field [OF h1 h2 h3 h4]
  show ?thesis by (auto simp: ex_progress_status_def)
qed

text \<open>
  Claim C3 as stated fails where it takes the status-level flag for a field of its own:
  in one batch the vertex descriptor latches \<open>completed\<close> and the status update, which
  has no marker, writes the same field. Afterwards the step has no completed flag that
  is true, and \<open>removeCompletedSteps\<close> keeps the step.
\<close>

theorem completed_fields_independent_counterexample:
  "map_option completed (snd (update_vertexes (Vertexes ex_mixed_batch) Map.empty) ''d1'')
     = Some True
   \<and> map_option completed (ongoing (snd (update ex_mixed_batch newTrace)) ''d1'') = Some False
   \<and> map_option completed
       (ongoing (fst (removeCompletedSteps [''d1''] (snd (update ex_mixed_batch newTrace)))) ''d1'')
     = Some False"
  by (simp add: ex_mixed_batch_def ex_done_vertex_def ex_progress_status_def
      update_def update_vertexes_Cons_ok vertex_ok_def latch_def new_vertexInfo_def
      ongoing_newTrace remove_step_def)

subsection \<open>What display does to the trace and to the sink\<close>

lemma running_stage_inj [simp]: "(running_stage a = running_stage b) = (a = b)"
  by (simp add: running_stage_def)

lemma running_stage_not_advice [simp]: "running_stage a \<noteq> ctx_advice"
  by (simp add: running_stage_def ctx_advice_def)

lemma display_log_cases:
  "display_log um p lg t =
     (case decoded um lg of
        None \<Rightarrow> (t, snd (display_log um p lg t))
      | Some text \<Rightarrow>
          if \<not> ordinary_stage (Stage text) then (t, snd (display_log um p lg t))
          else
            (t\<lparr>stages := (if stages t (Stage text) = None
                          then (stages t)(Stage text \<mapsto> True) else stages t),
               err := (if Level text = ''error''
                       then Some \<lparr>ce_Stage = Stage text, ce_Err = Message text, ce_Output = p\<rparr>
                       else err t)\<rparr>,
             SetStage (Stage text) #
             (if stages t (Stage text) = None \<and> p \<noteq> TestOutputModeOnBuild
              then [Information (running_stage (Stage text))] else []) @
             (if Level text = ''error'' then [] else [Println (Message text)])))"
  by (auto simp: display_log_def decoded_def ordinary_stage_def Let_def
      split: sum.splits option.splits)


lemma display_log_ongoing [simp]: "ongoing (fst (display_log um p lg t)) = ongoing t"
  by (auto simp: display_log_def Let_def split: sum.splits)

lemma display_log_showCtxAdvice [simp]:
  "showCtxAdvice (fst (display_log um p lg t)) = showCtxAdvice t"
  by (auto simp: display_log_def Let_def split: sum.splits)

lemma display_log_err:
  "err (fst (display_log um p lg t)) =
     (if is_error_line um lg then Some (command_err um p lg) else err t)"
  by (auto simp: display_log_def is_error_line_def decoded_def ordinary_stage_def
      command_err_def Let_def split: sum.splits)

lemma display_log_stages:
  "(stages (fst (display_log um p lg t)) s = None) =
     (stages t s = None \<and> \<not> (names_stage um lg s \<and> ordinary_stage s))"
  by (auto simp: display_log_def names_stage_def decoded_def ordinary_stage_def Let_def
      split: sum.splits)

lemma display_log_announces:
  "count_list (snd (display_log um p lg t)) (Information (running_stage s)) =
     (if names_stage um lg s \<and> ordinary_stage s \<and> stages t s = None
         \<and> p \<noteq> TestOutputModeOnBuild
      then 1 else 0)"
  by (auto simp: display_log_def names_stage_def decoded_def ordinary_stage_def Let_def
      split: sum.splits)



lemma display_logs_Cons_fst:
  "fst (display_logs um p (lg # rest) t) = fst (display_logs um p rest (fst (display_log um p lg t)))"
  by (simp add: case_prod_beta)

lemma display_logs_Cons_snd:
  "snd (display_logs um p (lg # rest) t) =
     snd (display_log um p lg t) @ snd (display_logs um p rest (fst (display_log um p lg t)))"
  by (simp add: case_prod_beta)

lemma display_logs_append_fst:
  "fst (display_logs um p (a @ b) t) = fst (display_logs um p b (fst (display_logs um p a t)))"
  by (induction a arbitrary: t) (simp_all add: display_logs_Cons_fst del: display_logs.simps(2))

lemma display_logs_ongoing [simp]: "ongoing (fst (display_logs um p lgs t)) = ongoing t"
  by (induction lgs arbitrary: t) (simp_all add: display_logs_Cons_fst del: display_logs.simps(2))

lemma display_logs_showCtxAdvice [simp]:
  "showCtxAdvice (fst (display_logs um p lgs t)) = showCtxAdvice t"
  by (induction lgs arbitrary: t) (simp_all add: display_logs_Cons_fst del: display_logs.simps(2))

lemma display_logs_err_kept:
  "\<forall>x\<in>set lgs. \<not> is_error_line um x \<Longrightarrow> err (fst (display_logs um p lgs t)) = err t"
  by (induction lgs arbitrary: t)
     (simp_all add: display_logs_Cons_fst display_log_err del: display_logs.simps(2))

lemma display_logs_err_set:
  "err t \<noteq> None \<Longrightarrow> err (fst (display_logs um p lgs t)) \<noteq> None"
  by (induction lgs arbitrary: t)
     (simp_all add: display_logs_Cons_fst display_log_err del: display_logs.simps(2))

lemma display_logs_err_last:
  assumes "is_error_line um lg" and "\<forall>x\<in>set post. \<not> is_error_line um x"
  shows "err (fst (display_logs um p (pre @ lg # post) t)) = Some (command_err um p lg)"
proof -
  let ?t1 = "fst (display_logs um p pre t)"
  have "err (fst (display_logs um p (pre @ lg # post) t))
          = err (fst (display_logs um p post (fst (display_log um p lg ?t1))))"
    by (simp add: display_logs_append_fst display_logs_Cons_fst del: display_logs.simps(2))
  also have "\<dots> = err (fst (display_log um p lg ?t1))"
    using assms(2) by (rule display_logs_err_kept)
  also have "\<dots> = Some (command_err um p lg)"
    using assms(1) by (simp add: display_log_err)
  finally show ?thesis .
qed

lemma display_logs_stages:
  "(stages (fst (display_logs um p lgs t)) s = None) =
     (stages t s = None \<and> \<not> (\<exists>lg\<in>set lgs. names_stage um lg s \<and> ordinary_stage s))"
  by (induction lgs arbitrary: t)
     (auto simp add: display_logs_Cons_fst display_log_stages simp del: display_logs.simps(2))

lemma display_logs_announces:
  "count_list (snd (display_logs um p lgs t)) (Information (running_stage s)) =
     (if p \<noteq> TestOutputModeOnBuild \<and> stages t s = None
         \<and> stages (fst (display_logs um p lgs t)) s \<noteq> None
      then 1 else 0)"
proof (induction lgs arbitrary: t)
  case Nil
  then show ?case by auto
next
  case (Cons lg lgs)
  let ?t1 = "fst (display_log um p lg t)"
  have a: "count_list (snd (display_logs um p (lg # lgs) t)) (Information (running_stage s))
        = count_list (snd (display_log um p lg t)) (Information (running_stage s))
          + count_list (snd (display_logs um p lgs ?t1)) (Information (running_stage s))"
    by (simp add: display_logs_Cons_snd del: display_logs.simps(2))
  have b: "(stages (fst (display_logs um p (lg # lgs) t)) s = None)
        = (stages ?t1 s = None \<and> \<not> (\<exists>x\<in>set lgs. names_stage um x s \<and> ordinary_stage s))"
    by (simp add: display_logs_Cons_fst display_logs_stages del: display_logs.simps(2))
  have c: "(stages (fst (display_logs um p lgs ?t1)) s = None)
        = (stages ?t1 s = None \<and> \<not> (\<exists>x\<in>set lgs. names_stage um x s \<and> ordinary_stage s))"
    by (simp add: display_logs_stages)
  have d: "(stages ?t1 s = None) = (stages t s = None \<and> \<not> (names_stage um lg s \<and> ordinary_stage s))"
    by (rule display_log_stages)
  show ?case
    unfolding a Cons.IH display_log_announces
    using b c d by (cases "stages t s = None") auto
qed



lemma progress_spinner_no_information [simp]:
  "count_list (progress_spinner p) (Information x) = 0"
  by (cases p) (simp_all add: progress_spinner_def)


lemma display_vertex_err_set:
  "err t \<noteq> None \<Longrightarrow> err (fst (display_vertex um fb p k t)) \<noteq> None"
  by (cases "ongoing t k")
     (auto simp add: display_vertex_def Let_def case_prod_beta
        intro!: display_logs_err_set[simplified])



lemma display_vertex_stages:
  "(stages (fst (display_vertex um fb p k t)) s = None) =
     (stages t s = None \<and>
      \<not> (\<exists>v. ongoing t k = Some v \<and> (\<exists>lg\<in>set (logs v). names_stage um lg s \<and> ordinary_stage s)))"
  by (cases "ongoing t k")
     (auto simp add: display_vertex_def Let_def case_prod_beta display_logs_stages
        hasCommandLogs_def)

lemma display_vertex_announces:
  "count_list (snd (display_vertex um fb p k t)) (Information (running_stage s)) =
     (if p \<noteq> TestOutputModeOnBuild \<and> stages t s = None
         \<and> stages (fst (display_vertex um fb p k t)) s \<noteq> None
      then 1 else 0)"
  by (cases "ongoing t k")
     (auto simp add: display_vertex_def Let_def case_prod_beta display_logs_announces
        hasCommandLogs_def)

lemma once_refl: "once P a a 0"
  by (simp add: once_def)

lemma once_trans: "once P a b n \<Longrightarrow> once P b c m \<Longrightarrow> once P a c (n + m)"
  unfolding once_def by (cases a; cases b; cases c; cases P; simp)


lemma display_vertex_once_stage:
  "once (p \<noteq> TestOutputModeOnBuild) (stages t s = None)
     (stages (fst (display_vertex um fb p k t)) s = None)
     (count_list (snd (display_vertex um fb p k t)) (Information (running_stage s)))"
  unfolding once_def display_vertex_announces
  by (auto simp: display_vertex_stages)

lemma display_Cons_fst:
  "fst (display um fb p (k # ks) t) = fst (display um fb p ks (fst (display_vertex um fb p k t)))"
  by (simp add: case_prod_beta)

lemma display_Cons_snd:
  "snd (display um fb p (k # ks) t) =
     snd (display_vertex um fb p k t) @ snd (display um fb p ks (fst (display_vertex um fb p k t)))"
  by (simp add: case_prod_beta)


lemma display_once_stage:
  "once (p \<noteq> TestOutputModeOnBuild) (stages t s = None)
     (stages (fst (display um fb p ks t)) s = None)
     (count_list (snd (display um fb p ks t)) (Information (running_stage s)))"
proof (induction ks arbitrary: t)
  case Nil
  show ?case by (simp add: once_refl)
next
  case (Cons k ks)
  show ?case
    unfolding display_Cons_fst display_Cons_snd count_list_append
    by (rule once_trans[OF display_vertex_once_stage Cons.IH])
qed

lemma display_err_set:
  "err t \<noteq> None \<Longrightarrow> err (fst (display um fb p ks t)) \<noteq> None"
proof (induction ks arbitrary: t)
  case Nil
  then show ?case by simp
next
  case (Cons k ks)
  have "err (fst (display_vertex um fb p k t)) \<noteq> None"
    using Cons.prems by (rule display_vertex_err_set)
  then have "err (fst (display um fb p ks (fst (display_vertex um fb p k t)))) \<noteq> None"
    by (rule Cons.IH)
  then show ?case unfolding display_Cons_fst .
qed

subsection \<open>The loop of deployDisplayer\<close>

lemma skip_notice_not_advice:
  "count_list (skip_notice v) (Information ctx_advice) = 0"
  by (simp add: skip_notice_def ctx_advice_def split: option.splits)

lemma skip_notice_not_running_stage:
  "count_list (skip_notice v) (Information (running_stage s)) = 0"
  by (simp add: skip_notice_def running_stage_def split: option.splits)

lemma remove_step_fields [simp]:
  "err (fst (remove_step k t)) = err t"
  "stages (fst (remove_step k t)) = stages t"
  "showCtxAdvice (fst (remove_step k t)) = showCtxAdvice t"
  by (simp_all add: remove_step_def split: option.splits)

lemma remove_step_counts [simp]:
  "count_list (snd (remove_step k t)) (Information ctx_advice) = 0"
  "count_list (snd (remove_step k t)) (Information (running_stage s)) = 0"
  by (simp_all add: remove_step_def skip_notice_not_advice skip_notice_not_running_stage
      split: option.splits)

lemma removeCompletedSteps_Cons_fst:
  "fst (removeCompletedSteps (k # ks) t) = fst (removeCompletedSteps ks (fst (remove_step k t)))"
  by (simp add: case_prod_beta)

lemma removeCompletedSteps_Cons_snd:
  "snd (removeCompletedSteps (k # ks) t) =
     snd (remove_step k t) @ snd (removeCompletedSteps ks (fst (remove_step k t)))"
  by (simp add: case_prod_beta)

lemma removeCompletedSteps_fields [simp]:
  "err (fst (removeCompletedSteps ks t)) = err t"
  "stages (fst (removeCompletedSteps ks t)) = stages t"
  "showCtxAdvice (fst (removeCompletedSteps ks t)) = showCtxAdvice t"
  by (induction ks arbitrary: t)
     (simp_all add: removeCompletedSteps_Cons_fst del: removeCompletedSteps.simps(2))

lemma removeCompletedSteps_counts [simp]:
  "count_list (snd (removeCompletedSteps ks t)) (Information ctx_advice) = 0"
  "count_list (snd (removeCompletedSteps ks t)) (Information (running_stage s)) = 0"
  by (induction ks arbitrary: t)
     (simp_all add: removeCompletedSteps_Cons_snd del: removeCompletedSteps.simps(2))

lemma update_fields [simp]:
  "err (snd (update ss t)) = err t"
  "stages (snd (update ss t)) = stages t"
  "showCtxAdvice (snd (update ss t)) = showCtxAdvice t"
  by (simp_all add: update_def split: prod.splits option.splits)

text \<open>The loop of \<open>deployDisplayer\<close>, one reception at a time.\<close>

lemma displayer_loop_Received_err:
  "fst (update ss t) = Some e \<Longrightarrow>
   fst (snd (displayer_loop um fb m (Received ss dks rks # rest) t))
     = fst (snd (displayer_loop um fb m rest (snd (update ss t))))
   \<and> snd (snd (displayer_loop um fb m (Received ss dks rks # rest) t))
     = Info e # snd (snd (displayer_loop um fb m rest (snd (update ss t))))
   \<and> fst (displayer_loop um fb m (Received ss dks rks # rest) t)
     = fst (displayer_loop um fb m rest (snd (update ss t)))"
  by (cases "update ss t") (simp add: case_prod_beta)

lemma displayer_loop_Received_ok:
  "fst (update ss t) = None \<Longrightarrow>
   fst (snd (displayer_loop um fb m (Received ss dks rks # rest) t))
     = fst (snd (displayer_loop um fb m rest (fst (cycle um fb m ss dks rks t))))
   \<and> snd (snd (displayer_loop um fb m (Received ss dks rks # rest) t))
     = snd (cycle um fb m ss dks rks t)
       @ snd (snd (displayer_loop um fb m rest (fst (cycle um fb m ss dks rks t))))
   \<and> fst (displayer_loop um fb m (Received ss dks rks # rest) t)
     = fst (displayer_loop um fb m rest (fst (cycle um fb m ss dks rks t)))"
  by (cases "update ss t") (simp add: case_prod_beta cycle_def Let_def)


lemma cycle_once_stage:
  "once (m \<noteq> TestOutputModeOnBuild) (stages t s = None)
     (stages (fst (cycle um fb m ss dks rks t)) s = None)
     (count_list (snd (cycle um fb m ss dks rks t)) (Information (running_stage s)))"
  using display_once_stage[of m "snd (update ss t)" s um fb dks]
  by (simp add: cycle_def Let_def)

lemma cycle_err_set:
  "err t \<noteq> None \<Longrightarrow> err (fst (cycle um fb m ss dks rks t)) \<noteq> None"
  using display_err_set[of "snd (update ss t)" um fb m dks]
  by (simp add: cycle_def Let_def)


lemma displayer_loop_once_stage:
  "once (m \<noteq> TestOutputModeOnBuild) (stages t s = None)
     (stages (fst (snd (displayer_loop um fb m sels t))) s = None)
     (count_list (snd (snd (displayer_loop um fb m sels t))) (Information (running_stage s)))"
proof (induction sels arbitrary: t)
  case Nil
  show ?case by (simp add: once_refl)
next
  case (Cons a rest)
  show ?case
  proof (cases a)
    case (CtxDone e)
    then show ?thesis by (simp add: once_refl)
  next
    case TimeoutTick
    then show ?thesis using Cons.IH by simp
  next
    case (Received ss dks rks)
    show ?thesis
    proof (cases "fst (update ss t)")
      case (Some e)
      show ?thesis
        unfolding Received displayer_loop_Received_err[OF Some, THEN conjunct1]
          displayer_loop_Received_err[OF Some, THEN conjunct2, THEN conjunct1]
        using Cons.IH[of "snd (update ss t)"] by simp
    next
      case None
      show ?thesis
        unfolding Received displayer_loop_Received_ok[OF None, THEN conjunct1]
          displayer_loop_Received_ok[OF None, THEN conjunct2, THEN conjunct1] count_list_append
        by (rule once_trans[OF cycle_once_stage Cons.IH])
    qed
  next
    case ChannelClosed
    then show ?thesis by (simp add: once_refl)
  qed
qed

lemma displayer_loop_err_set:
  "err t \<noteq> None \<Longrightarrow> err (fst (snd (displayer_loop um fb m sels t))) \<noteq> None"
proof (induction sels arbitrary: t)
  case Nil
  then show ?case by simp
next
  case (Cons a rest)
  show ?case
  proof (cases a)
    case (CtxDone e)
    then show ?thesis using Cons.prems by simp
  next
    case TimeoutTick
    then show ?thesis using Cons.IH[OF Cons.prems] by simp
  next
    case (Received ss dks rks)
    show ?thesis
    proof (cases "fst (update ss t)")
      case (Some e)
      have "err (snd (update ss t)) \<noteq> None" using Cons.prems by simp
      then have "err (fst (snd (displayer_loop um fb m rest (snd (update ss t))))) \<noteq> None"
        by (rule Cons.IH)
      then show ?thesis
        unfolding Received displayer_loop_Received_err[OF Some, THEN conjunct1] .
    next
      case None
      have "err (fst (cycle um fb m ss dks rks t)) \<noteq> None"
        using Cons.prems by (rule cycle_err_set)
      then have "err (fst (snd (displayer_loop um fb m rest (fst (cycle um fb m ss dks rks t)))))
                   \<noteq> None"
        by (rule Cons.IH)
      then show ?thesis
        unfolding Received displayer_loop_Received_ok[OF None, THEN conjunct1] .
    qed
  next
    case ChannelClosed
    then show ?thesis using Cons.prems by simp
  qed
qed

subsection \<open>The terminal error, the advice and the stage announcements\<close>



lemma deployDisplayer_count_Information:
  "count_list (snd (snd (deployDisplayer um fb om sels))) (Information x)
     = count_list (snd (snd (displayer_loop um fb (select_outputMode om) sels newTrace)))
         (Information x)"
  by (simp add: deployDisplayer_def case_prod_beta split: outcome.splits)

text \<open>
  Claim C4, as amended. The trace holds at most one terminal error, and the last
  error-level record wins: a line whose record is at level \<^verbatim>\<open>error\<close> in a stage
  other than \<^verbatim>\<open>done\<close> and \<^verbatim>\<open>Load manifest\<close> sets the terminal error to its own
  command failure whatever was recorded before, and every other line leaves it as it
  is; so after a \<open>display\<close> of a step's lines the terminal error is that of the last
  error line among them. Once set, the terminal error is never cleared by the loop of
  \<open>deployDisplayer\<close>.
\<close>

theorem terminal_error_last_error_wins:
  "err (fst (display_log um p lg t))
     = (if is_error_line um lg then Some (command_err um p lg) else err t)
   \<and> (is_error_line um lg \<and> (\<forall>x\<in>set post. \<not> is_error_line um x) \<longrightarrow>
        err (fst (display_logs um p (pre @ lg # post) t)) = Some (command_err um p lg))
   \<and> (err t \<noteq> None \<longrightarrow> err (fst (snd (displayer_loop um fb p sels t))) \<noteq> None)"
  using display_log_err[of um p lg t] display_logs_err_last[of um lg post p pre t]
    displayer_loop_err_set[of t um fb p sels]
  by blast

theorem terminal_error_last_error_wins_witness:
  "err (fst (display_logs ex_unmarshal DeployOutputModeOnBuild [''E1'', ''E2'', ''L''] newTrace))
     = Some \<lparr>ce_Stage = ''test'', ce_Err = ''bang'', ce_Output = DeployOutputModeOnBuild\<rparr>"
proof -
  have e: "is_error_line ex_unmarshal ''E2''"
    by (simp add: is_error_line_def decoded_def ex_unmarshal_def ordinary_stage_def)
  have n: "\<forall>x\<in>set [''L'']. \<not> is_error_line ex_unmarshal x"
    by (simp add: is_error_line_def decoded_def ex_unmarshal_def ordinary_stage_def)
  from terminal_error_last_error_wins
         [of ex_unmarshal DeployOutputModeOnBuild "''E2''" newTrace "[''L'']" "[''E1'']"] e n
  have "err (fst (display_logs ex_unmarshal DeployOutputModeOnBuild
                    ([''E1''] @ ''E2'' # [''L'']) newTrace))
          = Some (command_err ex_unmarshal DeployOutputModeOnBuild ''E2'')"
    by blast
  then show ?thesis by (simp add: command_err_def ex_unmarshal_def)
qed

text \<open>
  The claim as stated fails: the first error line records the failure of the stage
  \<open>build\<close>, and a later error line, in the same \<open>display\<close> call or in the next
  one, replaces it by the failure of the stage \<open>test\<close>, which is what
  \<open>deployDisplayer\<close> returns.
\<close>

theorem first_terminal_error_wins_counterexample:
  "err (fst (display_logs ex_unmarshal DeployOutputModeOnBuild [''E1''] newTrace))
     = Some \<lparr>ce_Stage = ''build'', ce_Err = ''boom'', ce_Output = DeployOutputModeOnBuild\<rparr>
   \<and> err (fst (display_logs ex_unmarshal DeployOutputModeOnBuild [''E1'', ''E2''] newTrace))
     = Some \<lparr>ce_Stage = ''test'', ce_Err = ''bang'', ce_Output = DeployOutputModeOnBuild\<rparr>
   \<and> fst (deployDisplayer ex_unmarshal ex_fmt_bytes DeployOutputModeOnBuild
          [Received ex_build_logs [''v2''] [''v2''], Received ex_test_logs [''v2''] [''v2''],
           ChannelClosed])
     = Returned (Some (TraceErr \<lparr>ce_Stage = ''test'', ce_Err = ''bang'',
                                  ce_Output = DeployOutputModeOnBuild\<rparr>))"
  by (simp add: deployDisplayer_def select_outputMode_def newTrace_def update_def
      ex_build_logs_def ex_test_logs_def ex_unmarshal_def
      update_vertexes_Cons_ok vertex_ok_def latch_def new_vertexInfo_def
      display_vertex_def isTransferringContext_def HasPrefix_def hasCommandLogs_def
      display_log_def progress_spinner_def remove_step_def)



text \<open>
  Claim C7, as amended. For every stage name other than \<^verbatim>\<open>done\<close> and
  \<^verbatim>\<open>Load manifest\<close> the announcement "Running stage '<stage>'" is printed at most
  once over a run of \<open>deployDisplayer\<close>: never when the output mode is the test
  mode, and otherwise exactly at the first record that names the stage, that is, at a
  line whose record names the stage while the stage is not yet among the stages of the
  trace, which the line then adds. For \<^verbatim>\<open>done\<close> and \<^verbatim>\<open>Load manifest\<close> (and for a
  record without a stage) nothing is announced in any mode and the stage is not
  remembered.
\<close>

theorem stage_announced_once:
  "count_list (snd (display_log um m lg t)) (Information (running_stage s))
     = (if names_stage um lg s \<and> s \<noteq> ''done'' \<and> s \<noteq> ''Load manifest''
           \<and> stages t s = None \<and> m \<noteq> TestOutputModeOnBuild
        then 1 else 0)
   \<and> (stages (fst (display_log um m lg t)) s = None)
     = (stages t s = None
        \<and> \<not> (names_stage um lg s \<and> s \<noteq> ''done'' \<and> s \<noteq> ''Load manifest''))
   \<and> count_list (snd (snd (displayer_loop um fb m sels t))) (Information (running_stage s))
     = (if m \<noteq> TestOutputModeOnBuild \<and> stages t s = None
           \<and> stages (fst (snd (displayer_loop um fb m sels t))) s \<noteq> None
        then 1 else 0)
   \<and> (stages t s \<noteq> None \<longrightarrow> stages (fst (snd (displayer_loop um fb m sels t))) s \<noteq> None)
   \<and> count_list (snd (snd (deployDisplayer um fb om sels))) (Information (running_stage s)) \<le> 1"
proof (intro conjI)
  show "count_list (snd (display_log um m lg t)) (Information (running_stage s))
     = (if names_stage um lg s \<and> s \<noteq> ''done'' \<and> s \<noteq> ''Load manifest''
           \<and> stages t s = None \<and> m \<noteq> TestOutputModeOnBuild
        then 1 else 0)"
    by (simp add: display_log_announces ordinary_stage_def)
  show "(stages (fst (display_log um m lg t)) s = None)
     = (stages t s = None
        \<and> \<not> (names_stage um lg s \<and> s \<noteq> ''done'' \<and> s \<noteq> ''Load manifest''))"
    by (simp add: display_log_stages ordinary_stage_def)
  have o: "once (m \<noteq> TestOutputModeOnBuild) (stages t s = None)
     (stages (fst (snd (displayer_loop um fb m sels t))) s = None)
     (count_list (snd (snd (displayer_loop um fb m sels t))) (Information (running_stage s)))"
    by (rule displayer_loop_once_stage)
  from o show "count_list (snd (snd (displayer_loop um fb m sels t)))
       (Information (running_stage s))
     = (if m \<noteq> TestOutputModeOnBuild \<and> stages t s = None
           \<and> stages (fst (snd (displayer_loop um fb m sels t))) s \<noteq> None
        then 1 else 0)"
    unfolding once_def by (rule conjunct2)
  from o have "stages (fst (snd (displayer_loop um fb m sels t))) s = None
      \<longrightarrow> stages t s = None"
    unfolding once_def by (rule conjunct1)
  then show "stages t s \<noteq> None
      \<longrightarrow> stages (fst (snd (displayer_loop um fb m sels t))) s \<noteq> None"
    by auto
  have "once (select_outputMode om \<noteq> TestOutputModeOnBuild) (stages newTrace s = None)
     (stages (fst (snd (displayer_loop um fb (select_outputMode om) sels newTrace))) s = None)
     (count_list (snd (snd (displayer_loop um fb (select_outputMode om) sels newTrace)))
        (Information (running_stage s)))"
    by (rule displayer_loop_once_stage)
  then show "count_list (snd (snd (deployDisplayer um fb om sels)))
      (Information (running_stage s)) \<le> 1"
    unfolding deployDisplayer_count_Information once_def by (auto split: if_splits)
qed


theorem stage_announced_once_witness:
  "count_list
     (snd (snd (displayer_loop ex_unmarshal ex_fmt_bytes DeployOutputModeOnBuild
        [Received ex_build_logs [''v2''] [''v2''], Received ex_build_logs [''v2''] [''v2'']]
        newTrace)))
     (Information (running_stage ''build'')) = 1
   \<and> count_list
     (snd (snd (displayer_loop ex_unmarshal ex_fmt_bytes TestOutputModeOnBuild
        [Received ex_build_logs [''v2''] [''v2''], Received ex_build_logs [''v2''] [''v2'']]
        newTrace)))
     (Information (running_stage ''build'')) = 0"
proof -
  have s: "stages newTrace ''build'' = None" by (simp add: newTrace_def)
  have d: "stages (fst (snd (displayer_loop ex_unmarshal ex_fmt_bytes DeployOutputModeOnBuild
        [Received ex_build_logs [''v2''] [''v2''], Received ex_build_logs [''v2''] [''v2'']]
        newTrace))) ''build'' \<noteq> None"
    by (simp add: newTrace_def update_def ex_build_logs_def ex_unmarshal_def
      update_vertexes_Cons_ok vertex_ok_def latch_def new_vertexInfo_def
      display_vertex_def isTransferringContext_def HasPrefix_def hasCommandLogs_def
      display_log_def progress_spinner_def remove_step_def)
  from stage_announced_once
         [of ex_unmarshal DeployOutputModeOnBuild "[]" newTrace "''build''" ex_fmt_bytes
             "[Received ex_build_logs [''v2''] [''v2''], Received ex_build_logs [''v2''] [''v2'']]"]
       s d
  have one: "count_list
     (snd (snd (displayer_loop ex_unmarshal ex_fmt_bytes DeployOutputModeOnBuild
        [Received ex_build_logs [''v2''] [''v2''], Received ex_build_logs [''v2''] [''v2'']]
        newTrace)))
     (Information (running_stage ''build'')) = 1"
    by simp
  from stage_announced_once
         [of ex_unmarshal TestOutputModeOnBuild "[]" newTrace "''build''" ex_fmt_bytes
             "[Received ex_build_logs [''v2''] [''v2''], Received ex_build_logs [''v2''] [''v2'']]"]
  have none: "count_list
     (snd (snd (displayer_loop ex_unmarshal ex_fmt_bytes TestOutputModeOnBuild
        [Received ex_build_logs [''v2''] [''v2''], Received ex_build_logs [''v2''] [''v2'']]
        newTrace)))
     (Information (running_stage ''build'')) = 0"
    by simp
  from one none show ?thesis by simp
qed

text \<open>
  The claim as stated fails for the stage \<^verbatim>\<open>Load manifest\<close>: in the deploy mode the
  first record that names it is not announced.
\<close>

theorem every_stage_announced_counterexample:
  "snd (snd (deployDisplayer ex_unmarshal ex_fmt_bytes DeployOutputModeOnBuild
          [Received ex_manifest_logs [''v2''] [''v2'']]))
     = [Spinner ''Synchronizing context...'', StartSpinner,
        Spinner ''Deploying your development environment...'',
        SetStage ''Load manifest'', SetStage []]
   \<and> count_list
       (snd (snd (deployDisplayer ex_unmarshal ex_fmt_bytes DeployOutputModeOnBuild
          [Received ex_manifest_logs [''v2''] [''v2'']])))
       (Information (running_stage ''Load manifest'')) = 0"
  by (simp add: deployDisplayer_def select_outputMode_def newTrace_def update_def
      ex_manifest_logs_def ex_unmarshal_def
      update_vertexes_Cons_ok vertex_ok_def latch_def new_vertexInfo_def
      display_vertex_def isTransferringContext_def HasPrefix_def hasCommandLogs_def
      display_log_def progress_spinner_def remove_step_def)

subsection \<open>The name pattern\<close>

lemma Contains_sublist: "Contains s sub = sublist sub s"
  by (induction s) (auto simp: sublist_Cons_right)

lemma not_space_dquote [simp]: "\<not> is_space dquote"
  by (simp add: is_space_def dquote_def)

lemma takeWhile_spaces:
  "\<forall>c\<in>set ws. is_space c \<Longrightarrow> takeWhile is_space (ws @ dquote # r) = ws"
  by (induction ws) auto

lemma dropWhile_spaces:
  "\<forall>c\<in>set ws. is_space c \<Longrightarrow> dropWhile is_space (ws @ dquote # r) = dquote # r"
  by (induction ws) auto

lemma takeWhile_name:
  "dquote \<notin> set n \<Longrightarrow> takeWhile (\<lambda>c. c \<noteq> dquote) (n @ dquote # r) = n"
  by (induction n) auto

lemma dropWhile_name:
  "dquote \<notin> set n \<Longrightarrow> dropWhile (\<lambda>c. c \<noteq> dquote) (n @ dquote # r) = dquote # r"
  by (induction n) auto

lemma nameRegex_at_complete:
  assumes "matches_nameRegex m n"
  shows "nameRegex_at (m @ post) = Some n"
proof -
  from assms obtain ws where
    m: "m = ''--name'' @ ws @ [dquote] @ n @ [dquote]" and ws: "ws \<noteq> []"
    "\<forall>c\<in>set ws. is_space c" and n: "n \<noteq> []" "dquote \<notin> set n"
    unfolding matches_nameRegex_def by blast
  have d: "drop 6 (m @ post) = ws @ dquote # (n @ dquote # post)" by (simp add: m)
  have p: "prefix ''--name'' (m @ post)" by (simp add: m)
  show ?thesis
    unfolding nameRegex_at_def d
    using ws n p
    by (simp add: takeWhile_spaces dropWhile_spaces takeWhile_name dropWhile_name Let_def
        del: drop_append)
qed

lemma nameRegex_at_sound:
  assumes "nameRegex_at s = Some n"
  shows "\<exists>m post. s = m @ post \<and> matches_nameRegex m n"
proof -
  from assms have p: "prefix ''--name'' s"
    by (auto simp: nameRegex_at_def split: if_splits)
  then have s: "s = ''--name'' @ drop 6 s"
    by (auto simp: prefix_def)
  let ?r = "drop 6 s"
  let ?ws = "takeWhile is_space ?r"
  let ?r1 = "dropWhile is_space ?r"
  from assms p have ws: "?ws \<noteq> []"
    by (auto simp: nameRegex_at_def Let_def split: if_splits)
  from assms p ws obtain r2 where r1: "?r1 = dquote # r2"
    by (auto simp: nameRegex_at_def Let_def split: if_splits list.splits)
  let ?n = "takeWhile (\<lambda>c. c \<noteq> dquote) r2"
  let ?r3 = "dropWhile (\<lambda>c. c \<noteq> dquote) r2"
  from assms p ws r1 have n: "?n \<noteq> []" "n = ?n"
    by (auto simp: nameRegex_at_def Let_def split: if_splits list.splits)
  from assms p ws r1 n obtain q r4 where r3: "?r3 = q # r4"
    by (auto simp: nameRegex_at_def Let_def split: if_splits list.splits)
  have q: "q = dquote"
    using hd_dropWhile[of "\<lambda>c. c \<noteq> dquote" r2] r3 by simp
  have "?r = ?ws @ ?r1" by simp
  also have "\<dots> = ?ws @ dquote # (?n @ ?r3)" by (simp add: r1)
  finally have r: "?r = ?ws @ [dquote] @ n @ [dquote] @ r4"
    by (simp add: r3 q n(2))
  have sp: "\<forall>c\<in>set ?ws. is_space c"
    by (auto dest: set_takeWhileD)
  have nq: "dquote \<notin> set n"
    unfolding n(2) by (auto dest: set_takeWhileD)
  have "matches_nameRegex (''--name'' @ ?ws @ [dquote] @ n @ [dquote]) n"
    unfolding matches_nameRegex_def using ws sp n nq by blast
  moreover have "s = (''--name'' @ ?ws @ [dquote] @ n @ [dquote]) @ r4"
    using s r by (metis append.assoc)
  ultimately show ?thesis by blast
qed


lemma nameRegex_at_Nil [simp]: "nameRegex_at [] = None"
  by (simp add: nameRegex_at_def)

lemma FindStringSubmatch_None:
  "FindStringSubmatch s = None \<Longrightarrow> s = pre @ rest \<Longrightarrow> nameRegex_at rest = None"
proof (induction s arbitrary: pre)
  case Nil
  then show ?case by simp
next
  case (Cons c cs)
  from Cons.prems(1) have here: "nameRegex_at (c # cs) = None" and
    later: "FindStringSubmatch cs = None"
    by (auto split: option.splits)
  show ?case
  proof (cases pre)
    case Nil
    with Cons.prems(2) here show ?thesis by simp
  next
    case (Cons p ps)
    with Cons.prems(2) have "cs = ps @ rest" by simp
    with later show ?thesis by (rule Cons.IH)
  qed
qed

lemma FindStringSubmatch_Some:
  "FindStringSubmatch s = Some n \<Longrightarrow>
   \<exists>pre rest. s = pre @ rest \<and> nameRegex_at rest = Some n
     \<and> (\<forall>pre' rest'. s = pre' @ rest' \<and> length pre' < length pre
            \<longrightarrow> nameRegex_at rest' = None)"
proof (induction s)
  case Nil
  then show ?case by simp
next
  case (Cons c cs)
  show ?case
  proof (cases "nameRegex_at (c # cs)")
    case (Some n')
    with Cons.prems have "n' = n" by simp
    with Some have "c # cs = [] @ (c # cs) \<and> nameRegex_at (c # cs) = Some n
        \<and> (\<forall>pre' rest'. c # cs = pre' @ rest' \<and> length pre' < length ([]::string)
               \<longrightarrow> nameRegex_at rest' = None)"
      by simp
    then show ?thesis by blast
  next
    case None
    with Cons.prems have "FindStringSubmatch cs = Some n" by simp
    from Cons.IH[OF this] obtain pre rest where
      cs: "cs = pre @ rest" and m: "nameRegex_at rest = Some n" and
      left: "\<forall>pre' rest'. cs = pre' @ rest' \<and> length pre' < length pre
               \<longrightarrow> nameRegex_at rest' = None"
      by blast
    have "nameRegex_at rest' = None"
      if "c # cs = pre' @ rest'" "length pre' < length (c # pre)" for pre' rest'
    proof (cases pre')
      case Nil
      with that(1) None show ?thesis by simp
    next
      case (Cons p ps)
      with that have "cs = ps @ rest'" "length ps < length pre" by simp_all
      with left show ?thesis by blast
    qed
    with cs m have "c # cs = (c # pre) @ rest \<and> nameRegex_at rest = Some n
        \<and> (\<forall>pre' rest'. c # cs = pre' @ rest' \<and> length pre' < length (c # pre)
               \<longrightarrow> nameRegex_at rest' = None)"
      by simp
    then show ?thesis by blast
  qed
qed

lemma FindStringSubmatch_no_match:
  "(FindStringSubmatch s = None) =
     (\<not> (\<exists>pre m post n. s = pre @ m @ post \<and> matches_nameRegex m n))"
proof
  assume none: "FindStringSubmatch s = None"
  show "\<not> (\<exists>pre m post n. s = pre @ m @ post \<and> matches_nameRegex m n)"
  proof
    assume "\<exists>pre m post n. s = pre @ m @ post \<and> matches_nameRegex m n"
    then obtain pre m post n where s: "s = pre @ m @ post" and m: "matches_nameRegex m n"
      by blast
    from FindStringSubmatch_None[OF none s] nameRegex_at_complete[OF m, of post]
    show False by simp
  qed
next
  assume no: "\<not> (\<exists>pre m post n. s = pre @ m @ post \<and> matches_nameRegex m n)"
  show "FindStringSubmatch s = None"
  proof (rule ccontr)
    assume "FindStringSubmatch s \<noteq> None"
    then obtain n where "FindStringSubmatch s = Some n" by auto
    from FindStringSubmatch_Some[OF this] obtain pre rest where
      s: "s = pre @ rest" and r: "nameRegex_at rest = Some n" by blast
    from nameRegex_at_sound[OF r] obtain m post where
      "rest = m @ post" "matches_nameRegex m n" by blast
    with s no show False by blast
  qed
qed

lemma FindStringSubmatch_leftmost:
  "(FindStringSubmatch s = Some n) =
     (\<exists>pre m post. s = pre @ m @ post \<and> matches_nameRegex m n
        \<and> (\<forall>pre' m' post' n'. s = pre' @ m' @ post' \<and> matches_nameRegex m' n'
               \<longrightarrow> length pre \<le> length pre'))"
proof
  assume "FindStringSubmatch s = Some n"
  from FindStringSubmatch_Some[OF this] obtain pre rest where
    s: "s = pre @ rest" and r: "nameRegex_at rest = Some n" and
    left: "\<forall>pre' rest'. s = pre' @ rest' \<and> length pre' < length pre
             \<longrightarrow> nameRegex_at rest' = None"
    by blast
  from nameRegex_at_sound[OF r] obtain m post where
    rest: "rest = m @ post" and m: "matches_nameRegex m n" by blast
  have "length pre \<le> length pre'"
    if "s = pre' @ m' @ post'" "matches_nameRegex m' n'" for pre' m' post' n'
  proof (rule ccontr)
    assume "\<not> length pre \<le> length pre'"
    then have "length pre' < length pre" by simp
    with left that(1) have "nameRegex_at (m' @ post') = None" by blast
    with nameRegex_at_complete[OF that(2), of post'] show False by simp
  qed
  with s rest m show "\<exists>pre m post. s = pre @ m @ post \<and> matches_nameRegex m n
        \<and> (\<forall>pre' m' post' n'. s = pre' @ m' @ post' \<and> matches_nameRegex m' n'
               \<longrightarrow> length pre \<le> length pre')"
    by blast
next
  assume "\<exists>pre m post. s = pre @ m @ post \<and> matches_nameRegex m n
        \<and> (\<forall>pre' m' post' n'. s = pre' @ m' @ post' \<and> matches_nameRegex m' n'
               \<longrightarrow> length pre \<le> length pre')"
  then obtain pre m post where
    s: "s = pre @ m @ post" and m: "matches_nameRegex m n" and
    left: "\<forall>pre' m' post' n'. s = pre' @ m' @ post' \<and> matches_nameRegex m' n'
               \<longrightarrow> length pre \<le> length pre'"
    by blast
  have "FindStringSubmatch s \<noteq> None"
    using s m by (auto simp: FindStringSubmatch_no_match)
  then obtain n2 where f: "FindStringSubmatch s = Some n2" by auto
  from FindStringSubmatch_Some[OF f] obtain pre2 rest2 where
    s2: "s = pre2 @ rest2" and r2: "nameRegex_at rest2 = Some n2" and
    left2: "\<forall>pre' rest'. s = pre' @ rest' \<and> length pre' < length pre2
             \<longrightarrow> nameRegex_at rest' = None"
    by blast
  from nameRegex_at_sound[OF r2] obtain m2 post2 where
    rest2: "rest2 = m2 @ post2" and m2: "matches_nameRegex m2 n2" by blast
  from left s2 rest2 m2 have le: "length pre \<le> length pre2" by blast
  have here: "nameRegex_at (m @ post) = Some n" by (rule nameRegex_at_complete[OF m])
  have "\<not> length pre < length pre2"
  proof
    assume "length pre < length pre2"
    with left2 s have "nameRegex_at (m @ post) = None" by blast
    with here show False by simp
  qed
  with le have "length pre = length pre2" by simp
  with s s2 have "pre = pre2" "m @ post = rest2" by auto
  with here r2 have "n2 = n" by simp
  with f show "FindStringSubmatch s = Some n" by simp
qed

subsection \<open>removeCompletedSteps\<close>

lemma remove_step_ongoing:
  "ongoing (fst (remove_step k t)) =
     (case ongoing t k of
        None \<Rightarrow> ongoing t
      | Some v \<Rightarrow> if completed v then (ongoing t)(k := None) else ongoing t)"
  by (simp add: remove_step_def split: option.splits)

lemma remove_step_notice: "snd (remove_step k t) = step_notice (ongoing t) k"
  by (simp add: remove_step_def step_notice_def split: option.splits)

lemma remove_step_other: "k' \<noteq> k \<Longrightarrow> ongoing (fst (remove_step k t)) k' = ongoing t k'"
  by (simp add: remove_step_ongoing split: option.splits)

lemma removeCompletedSteps_ongoing:
  "ongoing (fst (removeCompletedSteps ks t)) k =
     (case ongoing t k of
        None \<Rightarrow> None
      | Some v \<Rightarrow> if completed v \<and> k \<in> set ks then None else Some v)"
proof (induction ks arbitrary: t)
  case Nil
  show ?case by (simp split: option.splits)
next
  case (Cons a ks)
  show ?case
    unfolding removeCompletedSteps_Cons_fst Cons.IH
    by (auto simp: remove_step_ongoing split: option.splits)
qed

lemma removeCompletedSteps_notices:
  "distinct ks \<Longrightarrow>
   snd (removeCompletedSteps ks t) = concat (map (step_notice (ongoing t)) ks)"
proof (induction ks arbitrary: t)
  case Nil
  show ?case by simp
next
  case (Cons a ks)
  then have d: "distinct ks" and a: "a \<notin> set ks" by simp_all
  have same: "step_notice (ongoing (fst (remove_step a t))) k = step_notice (ongoing t) k"
    if "k \<in> set ks" for k
  proof -
    from that a have "k \<noteq> a" by auto
    then show ?thesis by (simp add: step_notice_def remove_step_other)
  qed
  have m: "map (step_notice (ongoing (fst (remove_step a t)))) ks
          = map (step_notice (ongoing t)) ks"
    using same by (intro map_cong) auto
  show ?case
    unfolding removeCompletedSteps_Cons_snd Cons.IH[OF d] remove_step_notice m
    by simp
qed

text \<open>
  Claim C8. When the range visits every key of the registry once,
  \<open>removeCompletedSteps\<close> leaves exactly the steps whose completed flag is false,
  unchanged, and prints, in the order of the visit, the notice of every step it
  deletes: for a deleted step that is cached and whose name contains
  \<^verbatim>\<open>remote-run test\<close>, the skip notice with the name captured by the leftmost match of
  the pattern in the step's name, or the generic notice when the name has no match;
  nothing for any other step. A descriptor that arrives afterwards for a deleted
  identifier registers a fresh step, with no log line, zero counters and the flags of
  that descriptor.
\<close>

theorem removeCompletedSteps_deletes_completed:
  assumes "distinct ks" and "set ks = dom (ongoing t)"
  shows "ongoing (fst (removeCompletedSteps ks t))
           = (\<lambda>k. case ongoing t k of
                     None \<Rightarrow> None
                   | Some v \<Rightarrow> if completed v then None else Some v)
       \<and> snd (removeCompletedSteps ks t)
           = concat (map (\<lambda>k. case ongoing t k of
                                  None \<Rightarrow> []
                                | Some v \<Rightarrow> if completed v then skip_notice v else []) ks)
       \<and> skip_notice v
           = (if sublist ''remote-run test'' (name v) \<and> cached v then
                [Information
                   (case FindStringSubmatch (name v) of
                      Some n \<Rightarrow> ''Skipping test container '' @ quoted n @ '', CACHED''
                    | None \<Rightarrow> ''Skipping test container, CACHED'')]
              else [])
       \<and> (FindStringSubmatch nm = Some n)
           = (\<exists>pre m post. nm = pre @ m @ post \<and> matches_nameRegex m n
                \<and> (\<forall>pre' m' post' n'. nm = pre' @ m' @ post' \<and> matches_nameRegex m' n'
                       \<longrightarrow> length pre \<le> length pre'))
       \<and> (FindStringSubmatch nm = None)
           = (\<not> (\<exists>pre m post n. nm = pre @ m @ post \<and> matches_nameRegex m n))
       \<and> (ongoing t (Digest rv) = Some v \<and> completed v \<and> Error rv = [] \<longrightarrow>
            ongoing (snd (update \<lparr>Vertexes = [rv], Statuses = [], Logs = []\<rparr>
                            (fst (removeCompletedSteps ks t)))) (Digest rv)
              = Some \<lparr>name = Name rv, logs = [], currentTransferedContext = 0,
                      totalTransferedContext = 0, completed = (Completed rv \<noteq> None),
                      cached = Cached rv\<rparr>)"
proof (intro conjI impI)
  show "ongoing (fst (removeCompletedSteps ks t))
           = (\<lambda>k. case ongoing t k of
                     None \<Rightarrow> None
                   | Some v \<Rightarrow> if completed v then None else Some v)"
  proof
    fix k
    show "ongoing (fst (removeCompletedSteps ks t)) k
            = (case ongoing t k of None \<Rightarrow> None
               | Some v \<Rightarrow> if completed v then None else Some v)"
      using assms(2) by (auto simp: removeCompletedSteps_ongoing split: option.splits)
  qed
  have "step_notice (ongoing t)
          = (\<lambda>k. case ongoing t k of
                    None \<Rightarrow> []
                  | Some v \<Rightarrow> if completed v then skip_notice v else [])"
    by (rule ext) (simp add: step_notice_def)
  with removeCompletedSteps_notices[OF assms(1), of t]
  show "snd (removeCompletedSteps ks t)
           = concat (map (\<lambda>k. case ongoing t k of
                                  None \<Rightarrow> []
                                | Some v \<Rightarrow> if completed v then skip_notice v else []) ks)"
    by simp
  show "skip_notice v
           = (if sublist ''remote-run test'' (name v) \<and> cached v then
                [Information
                   (case FindStringSubmatch (name v) of
                      Some n \<Rightarrow> ''Skipping test container '' @ quoted n @ '', CACHED''
                    | None \<Rightarrow> ''Skipping test container, CACHED'')]
              else [])"
    by (simp add: skip_notice_def Contains_sublist quoted_def split: option.splits)
  show "(FindStringSubmatch nm = Some n)
           = (\<exists>pre m post. nm = pre @ m @ post \<and> matches_nameRegex m n
                \<and> (\<forall>pre' m' post' n'. nm = pre' @ m' @ post' \<and> matches_nameRegex m' n'
                       \<longrightarrow> length pre \<le> length pre'))"
    by (rule FindStringSubmatch_leftmost)
  show "(FindStringSubmatch nm = None)
           = (\<not> (\<exists>pre m post n. nm = pre @ m @ post \<and> matches_nameRegex m n))"
    by (rule FindStringSubmatch_no_match)
next
  assume a: "ongoing t (Digest rv) = Some v \<and> completed v \<and> Error rv = []"
  let ?t = "fst (removeCompletedSteps ks t)"
  from a assms(2) have gone: "ongoing ?t (Digest rv) = None"
    by (auto simp: removeCompletedSteps_ongoing)
  from a have "update_vertexes [rv] (ongoing ?t) = (None, vertex_ok rv (ongoing ?t))"
    by (simp add: update_vertexes_Cons_ok)
  then have "ongoing (snd (update \<lparr>Vertexes = [rv], Statuses = [], Logs = []\<rparr> ?t))
               = vertex_ok rv (ongoing ?t)"
    by (simp add: update_def)
  then show "ongoing (snd (update \<lparr>Vertexes = [rv], Statuses = [], Logs = []\<rparr> ?t)) (Digest rv)
              = Some \<lparr>name = Name rv, logs = [], currentTransferedContext = 0,
                      totalTransferedContext = 0, completed = (Completed rv \<noteq> None),
                      cached = Cached rv\<rparr>"
    using gone by (simp add: vertex_ok_def latch_def new_vertexInfo_def)
qed


theorem removeCompletedSteps_deletes_completed_witness:
  "snd (removeCompletedSteps [''c'', ''a'', ''b''] ex_registry_trace)
     = [Information (''Skipping test container '' @ quoted ''unit'' @ '', CACHED'')]
   \<and> ongoing (fst (removeCompletedSteps [''c'', ''a'', ''b''] ex_registry_trace)) ''a'' = None
   \<and> ongoing (fst (removeCompletedSteps [''c'', ''a'', ''b''] ex_registry_trace)) ''b'' = None
   \<and> ongoing (fst (removeCompletedSteps [''c'', ''a'', ''b''] ex_registry_trace)) ''c''
     = Some ex_running_step"
proof -
  have d: "distinct [''c'', ''a'', ''b'']" by simp
  have k: "set [''c'', ''a'', ''b''] = dom (ongoing ex_registry_trace)"
    by (auto simp: ex_registry_trace_def)
  note th = removeCompletedSteps_deletes_completed [OF d k]
  from th have og: "ongoing (fst (removeCompletedSteps [''c'', ''a'', ''b''] ex_registry_trace))
           = (\<lambda>k. case ongoing ex_registry_trace k of
                     None \<Rightarrow> None
                   | Some v \<Rightarrow> if completed v then None else Some v)"
    by blast
  from th have out: "snd (removeCompletedSteps [''c'', ''a'', ''b''] ex_registry_trace)
           = concat (map (\<lambda>k. case ongoing ex_registry_trace k of
                                  None \<Rightarrow> []
                                | Some v \<Rightarrow> if completed v then skip_notice v else [])
                       [''c'', ''a'', ''b''])"
    by blast
  have a: "skip_notice ex_test_step
             = [Information (''Skipping test container '' @ quoted ''unit'' @ '', CACHED'')]"
    by (simp add: ex_test_step_def skip_notice_def nameRegex_at_def is_space_def dquote_def
        quoted_def)
  have b: "skip_notice ex_pull_step = []"
    by (simp add: ex_pull_step_def skip_notice_def)
  have c: "completed ex_test_step" "completed ex_pull_step" "\<not> completed ex_running_step"
    by (simp_all add: ex_test_step_def ex_pull_step_def ex_running_step_def)
  show ?thesis
    unfolding og out
    by (simp add: ex_registry_trace_def a b c)
qed

section \<open>Properties of the pipeline package\<close>

text \<open>
  Claim C5, as amended. When \<open>destroyPipeline\<close> reports the failure of the remote
  \<^verbatim>\<open>Destroy\<close> call and \<^verbatim>\<open>IsNotFound\<close> holds of the reported error,
  \<open>ExecuteDestroyPipeline\<close> does not enter the wait phase, whether or not waiting was
  requested: it makes no call of \<open>waitUntilDestroyed\<close> (nothing of it reaches the sink
  and its schedule has no influence), prints the success message ("scheduled for
  destruction" without waiting, "successfully destroyed" with), and returns \<^verbatim>\<open>nil\<close>.
  The not-found error is not returned to the caller in either case.
\<close>

theorem destroy_not_found_is_success:
  assumes "pipeline_name env opts = Inr nm"
    and "destroy_sel env = SelExit resp (Some e)"
    and "IsNotFound env (Wrapf (''failed to destroy repository '' @ quoted nm @ '': '') e)"
  shows "ExecuteDestroyPipeline env opts =
           (Return None,
            [Spinner (''Destroying repository '' @ quoted nm @ ''...''), StartSpinner,
             Infof (''exit signal received due to error: ''
                    @ ''failed to destroy repository '' @ quoted nm @ '': '' @ Error_text e),
             StopSpinner,
             Success (''Repository '' @ quoted nm @
                      (if opt_Wait opts then '' successfully destroyed''
                       else '' scheduled for destruction''))])"
  using assms
  by (simp add: ExecuteDestroyPipeline_def destroyPipeline_def Let_def)

theorem destroy_not_found_is_success_witness:
  "ExecuteDestroyPipeline ex_destroy_env (ex_destroy_opts\<lparr>opt_Wait := True\<rparr>) =
     (Return None,
      [Spinner (''Destroying repository '' @ quoted ''app'' @ ''...''), StartSpinner,
       Infof ''exit signal received due to error: failed to destroy repository 'app': pipeline not found'',
       StopSpinner,
       Success (''Repository '' @ quoted ''app'' @ '' successfully destroyed'')])"
proof -
  have h1: "pipeline_name ex_destroy_env (ex_destroy_opts\<lparr>opt_Wait := True\<rparr>) = Inr ''app''"
    by (simp add: pipeline_name_def ex_destroy_opts_def)
  have h2: "destroy_sel ex_destroy_env = SelExit None (Some (Errorf ''pipeline not found''))"
    by (simp add: ex_destroy_env_def)
  have h3: "IsNotFound ex_destroy_env
              (Wrapf (''failed to destroy repository '' @ quoted ''app'' @ '': '')
                 (Errorf ''pipeline not found''))"
    by (simp add: ex_destroy_env_def quoted_def)
  from destroy_not_found_is_success [OF h1 h2 h3]
  show ?thesis by (simp add: quoted_def ex_destroy_opts_def)
qed

text \<open>
  The claim as stated fails: for a caller that does not request waiting, the call
  whose \<^verbatim>\<open>Destroy\<close> fails with a not-found error returns \<^verbatim>\<open>nil\<close>, not that error,
  after the message that the repository is scheduled for destruction.
\<close>

theorem destroy_not_found_error_returned_counterexample:
  "IsNotFound ex_destroy_env
     (Wrapf (''failed to destroy repository '' @ quoted ''app'' @ '': '')
        (Errorf ''pipeline not found''))
   \<and> opt_Wait ex_destroy_opts = False
   \<and> ExecuteDestroyPipeline ex_destroy_env ex_destroy_opts =
     (Return None,
      [Spinner (''Destroying repository '' @ quoted ''app'' @ ''...''), StartSpinner,
       Infof ''exit signal received due to error: failed to destroy repository 'app': pipeline not found'',
       StopSpinner,
       Success (''Repository '' @ quoted ''app'' @ '' scheduled for destruction'')])"
  by (simp add: ExecuteDestroyPipeline_def destroyPipeline_def pipeline_name_def
      ex_destroy_env_def ex_destroy_opts_def quoted_def)

lemma wstep_fun_closer_waits:
  "closer_waits s \<Longrightarrow> closer_waits (wstep_fun E action a s)"
  by (cases a)
     (auto simp: wstep_fun_def closer_waits_def Let_def split: option.splits list.splits)

lemma wrun_closer_waits:
  "closer_waits s \<Longrightarrow> closer_waits (wrun E action sched s)"
  by (induction sched arbitrary: s) (simp_all add: wstep_fun_closer_waits)

lemma winit_closer_waits: "closer_waits (winit nm)"
  by (simp add: closer_waits_def winit_def)

text \<open>
  Claim C9, on the code as it is. Under every schedule of the threads of
  \<open>waitUntilDestroyed\<close> the counter of the wait group stays above zero, because only
  the log-streaming goroutine calls \<^verbatim>\<open>wg.Done()\<close> while \<^verbatim>\<open>wg.Add(1)\<close> ran twice;
  so the closing goroutine never leaves \<^verbatim>\<open>wg.Wait()\<close> and neither channel is ever
  closed, also when both background goroutines have finished.
\<close>

theorem waitUntilDestroyed_never_closes_channels:
  "stop_closes (waitUntilDestroyed E nm action sched) = 0
   \<and> exit_closes (waitUntilDestroyed E nm action sched) = 0
   \<and> closer_pc (waitUntilDestroyed E nm action sched) = 0
   \<and> 1 \<le> wg (waitUntilDestroyed E nm action sched)"
proof -
  have "closer_waits (waitUntilDestroyed E nm action sched)"
    unfolding waitUntilDestroyed_def by (rule wrun_closer_waits[OF winit_closer_waits])
  then show ?thesis by (simp add: closer_waits_def)
qed

theorem waitUntilDestroyed_never_closes_channels_witness:
  "logs_done (waitUntilDestroyed (Errorf ''interrupt'') ''app'' (Some ''destroy'') ex_both_finish)
   \<and> wait_done (waitUntilDestroyed (Errorf ''interrupt'') ''app'' (Some ''destroy'') ex_both_finish)
   \<and> returned (waitUntilDestroyed (Errorf ''interrupt'') ''app'' (Some ''destroy'') ex_both_finish)
       = Some None
   \<and> wg (waitUntilDestroyed (Errorf ''interrupt'') ''app'' (Some ''destroy'') ex_both_finish) = 1
   \<and> stop_closes (waitUntilDestroyed (Errorf ''interrupt'') ''app'' (Some ''destroy'')
        ex_both_finish) = 0
   \<and> exit_closes (waitUntilDestroyed (Errorf ''interrupt'') ''app'' (Some ''destroy'')
        ex_both_finish) = 0"
proof -
  have run: "logs_done (waitUntilDestroyed (Errorf ''interrupt'') ''app'' (Some ''destroy'')
                 ex_both_finish)
     \<and> wait_done (waitUntilDestroyed (Errorf ''interrupt'') ''app'' (Some ''destroy'')
          ex_both_finish)
     \<and> returned (waitUntilDestroyed (Errorf ''interrupt'') ''app'' (Some ''destroy'')
          ex_both_finish) = Some None
     \<and> wg (waitUntilDestroyed (Errorf ''interrupt'') ''app'' (Some ''destroy'')
          ex_both_finish) = 1"
    by (simp add: waitUntilDestroyed_def ex_both_finish_def winit_def wstep_fun_def)
  from run waitUntilDestroyed_never_closes_channels
         [of "Errorf ''interrupt''" "''app''" "Some ''destroy''" ex_both_finish]
  show ?thesis by simp
qed

end
